theory Spec2Isabelle
  imports Complex_Main "HOL-Library.Word"
begin

section \<open>Geometry on position arrays\<close>

text \<open>
  A position array is a list of rows \<open>(x, y, z)\<close>.  Coordinates are modelled as real
  numbers; \<open>norm3\<close> is \<open>np.linalg.norm\<close> on one row, taken exactly.  It serves where
  a length is only compared with a threshold.  The distances that are stored in edges and in the
  result document are computed with binary64 rounding, see \<open>norm_f64\<close> below.
\<close>

type_synonym vec3 = "real \<times> real \<times> real"

definition sq3 :: "vec3 \<Rightarrow> real" where
  "sq3 v = (case v of (x, y, z) \<Rightarrow> x * x + y * y + z * z)"

definition norm3 :: "vec3 \<Rightarrow> real" where
  "norm3 v = sqrt (sq3 v)"

definition sub3 :: "vec3 \<Rightarrow> vec3 \<Rightarrow> vec3" where
  "sub3 a b = (case a of (ax, ay, az) \<Rightarrow> case b of (bx, by, bz) \<Rightarrow> (ax - bx, ay - by, az - bz))"

definition add3 :: "vec3 \<Rightarrow> vec3 \<Rightarrow> vec3" where
  "add3 a b = (case a of (ax, ay, az) \<Rightarrow> case b of (bx, by, bz) \<Rightarrow> (ax + bx, ay + by, az + bz))"

definition scale3 :: "real \<Rightarrow> vec3 \<Rightarrow> vec3" where
  "scale3 c a = (case a of (ax, ay, az) \<Rightarrow> (c * ax, c * ay, c * az))"

definition dot3 :: "vec3 \<Rightarrow> vec3 \<Rightarrow> real" where
  "dot3 a b = (case a of (ax, ay, az) \<Rightarrow> case b of (bx, by, bz) \<Rightarrow> ax * bx + ay * by + az * bz)"

definition dist3 :: "vec3 \<Rightarrow> vec3 \<Rightarrow> real" where
  "dist3 a b = norm3 (sub3 a b)"

text \<open>Index of the first element satisfying a test: a \<open>for \<dots> enumerate\<close> loop that
  returns at the first hit and \<open>None\<close> when it runs out.\<close>

fun first_index :: "('a \<Rightarrow> bool) \<Rightarrow> 'a list \<Rightarrow> nat option" where
  "first_index P [] = None"
| "first_index P (x # xs) = (if P x then Some 0 else map_option Suc (first_index P xs))"

section \<open>Deduplicator (deduplication.py)\<close>

subsection \<open>Stage 1: back-and-forth merging\<close>

text \<open>\<open>_find_revisit_point\<close>: scans \<open>path[:-1]\<close> for the first point closer than the
  threshold.\<close>

definition find_revisit_point :: "vec3 list \<Rightarrow> vec3 \<Rightarrow> real \<Rightarrow> nat option" where
  "find_revisit_point path point threshold =
     first_index (\<lambda>p. norm3 (sub3 p point) < threshold) (butlast path)"

text \<open>\<open>_find_divergence_point\<close>: the first forward point whose minimum distance to the
  backward path exceeds the threshold.  The backward path is never empty at the call site.\<close>

definition find_divergence_point :: "vec3 list \<Rightarrow> vec3 list \<Rightarrow> real \<Rightarrow> nat option" where
  "find_divergence_point forward_path backward_path threshold =
     first_index
       (\<lambda>point. threshold < min_list (map (\<lambda>b. norm3 (sub3 b point)) backward_path))
       forward_path"

text \<open>The \<open>while i < len(positions)\<close> loop of \<open>merge_overlapping_segments\<close>.  The loop
  is defined as a partial function: \<open>None\<close> stands for a run that never leaves the loop.
  The test \<open>revisit_idx < len(result) - 2\<close> is on Python integers; with a natural-number
  index it reads \<open>r + 2 < length result\<close>.\<close>

partial_function (option) merge_loop ::
  "vec3 list \<Rightarrow> real \<Rightarrow> vec3 list \<Rightarrow> nat \<Rightarrow> vec3 list option" where
  "merge_loop positions threshold result i =
     (if i < length positions then
        (case find_revisit_point result (positions ! i) threshold of
           Some r \<Rightarrow>
             (if r + 2 < length result then
                (case find_divergence_point (drop i positions) (drop r result) threshold of
                   Some d \<Rightarrow> merge_loop positions threshold result (i + d)
                 | None \<Rightarrow> merge_loop positions threshold (result @ [positions ! i]) (i + 1))
              else merge_loop positions threshold (result @ [positions ! i]) (i + 1))
         | None \<Rightarrow> merge_loop positions threshold (result @ [positions ! i]) (i + 1))
      else Some result)"

definition merge_overlapping_segments :: "vec3 list \<Rightarrow> real \<Rightarrow> vec3 list option" where
  "merge_overlapping_segments positions overlap_threshold =
     (if length positions < 3 then Some positions
      else merge_loop positions overlap_threshold [positions ! 0] 1)"

subsection \<open>Stage 2: spatial deduplication\<close>

text \<open>\<open>cKDTree.query_ball_point\<close>: the indices of all points within distance \<open>r\<close>
  (inclusive) of \<open>x\<close>.  The order in which the tree reports them does not influence the
  loop below; the model lists them in ascending order.\<close>

definition query_ball_point :: "vec3 list \<Rightarrow> vec3 \<Rightarrow> real \<Rightarrow> nat list" where
  "query_ball_point pts x r = filter (\<lambda>j. dist3 (pts ! j) x \<le> r) [0..<length pts]"

text \<open>Inner loop: every neighbour that is not the point itself and not yet visited is
  masked out and marked visited.\<close>

fun claim_neighbors :: "nat \<Rightarrow> nat list \<Rightarrow> bool list \<times> nat set \<Rightarrow> bool list \<times> nat set" where
  "claim_neighbors i [] (keep_mask, visited) = (keep_mask, visited)"
| "claim_neighbors i (j # js) (keep_mask, visited) =
     (if j \<noteq> i \<and> j \<notin> visited
      then claim_neighbors i js (keep_mask[j := False], insert j visited)
      else claim_neighbors i js (keep_mask, visited))"

text \<open>Outer loop \<open>for i in range(len(positions))\<close>.\<close>

fun dedup_scan :: "vec3 list \<Rightarrow> real \<Rightarrow> nat list \<Rightarrow> bool list \<times> nat set \<Rightarrow> bool list \<times> nat set" where
  "dedup_scan pts r [] st = st"
| "dedup_scan pts r (i # is) (keep_mask, visited) =
     (if i \<in> visited then dedup_scan pts r is (keep_mask, visited)
      else (case claim_neighbors i (query_ball_point pts (pts ! i) r) (keep_mask, visited) of
              (keep_mask', visited') \<Rightarrow> dedup_scan pts r is (keep_mask', insert i visited')))"

definition masked :: "'a list \<Rightarrow> bool list \<Rightarrow> 'a list" where
  "masked xs keep_mask = map fst (filter snd (zip xs keep_mask))"

definition deduplicate_path :: "vec3 list \<Rightarrow> real \<Rightarrow> vec3 list" where
  "deduplicate_path positions distance_threshold =
     (if length positions < 2 then positions
      else (let unique_positions =
                  masked positions
                    (fst (dedup_scan positions distance_threshold [0..<length positions]
                           (replicate (length positions) True, {})))
            in if length unique_positions < 2 then positions else unique_positions))"

text \<open>The two stages as the pipeline chains them (main.py): merging with
  \<open>overlap_threshold = 1.0\<close>, then spatial deduplication with
  \<open>distance_threshold = 0.5\<close>.\<close>

definition two_stage_dedup :: "vec3 list \<Rightarrow> vec3 list option" where
  "two_stage_dedup positions =
     map_option (\<lambda>merged. deduplicate_path merged (1 / 2))
       (merge_overlapping_segments positions 1)"

section \<open>Flattener (smoothing.py, deduplication.py, path_flattening.py)\<close>

text \<open>Exceptions that the modelled functions can raise.\<close>

datatype error =
    ValueError        \<comment> \<open>\<open>np.concatenate\<close> of an empty list, or the reader's empty trajectory\<close>
  | RecursionError    \<comment> \<open>unbounded recursion in \<open>_rdp_recursive\<close>\<close>
  | OverflowError     \<comment> \<open>\<open>int\<close> of an infinite float\<close>

subsection \<open>Gap splitting\<close>

text \<open>\<open>np.linalg.norm(np.diff(positions, axis=0), axis=1)\<close>.\<close>

definition consecutive_dists :: "vec3 list \<Rightarrow> real list" where
  "consecutive_dists positions =
     map (\<lambda>i. norm3 (sub3 (positions ! (i + 1)) (positions ! i))) [0..<length positions - 1]"

text \<open>\<open>np.where(dists > gap_threshold)[0] + 1\<close>.\<close>

definition split_indices :: "vec3 list \<Rightarrow> real \<Rightarrow> nat list" where
  "split_indices positions gap_threshold =
     map Suc (filter (\<lambda>i. gap_threshold < consecutive_dists positions ! i)
                     [0..<length positions - 1])"

text \<open>The loop \<open>for idx in split_indices\<close>; the state is \<open>(segments, prev)\<close>.\<close>

fun split_loop :: "vec3 list \<Rightarrow> nat list \<Rightarrow> vec3 list list \<times> nat \<Rightarrow> vec3 list list \<times> nat" where
  "split_loop positions [] (segments, prev) = (segments, prev)"
| "split_loop positions (idx # rest) (segments, prev) =
     (if idx - prev \<ge> 2
      then split_loop positions rest (segments @ [take (idx - prev) (drop prev positions)], idx)
      else split_loop positions rest (segments, idx))"

definition split_at_gaps :: "vec3 list \<Rightarrow> real \<Rightarrow> vec3 list list" where
  "split_at_gaps positions gap_threshold =
     (if length positions < 2 then [positions]
      else if split_indices positions gap_threshold = [] then [positions]
      else (case split_loop positions (split_indices positions gap_threshold) ([], 0) of
              (segments, prev) \<Rightarrow>
                if length positions - prev \<ge> 2 then segments @ [drop prev positions]
                else segments))"

text \<open>The gap-separated runs of a point sequence, in the words of the specification: the
  sequence cut at every index whose distance to its predecessor exceeds the threshold.\<close>

definition gap_separated_runs :: "vec3 list \<Rightarrow> real \<Rightarrow> vec3 list list" where
  "gap_separated_runs positions gap_threshold =
     map (\<lambda>(a, b). take (b - a) (drop a positions))
         (zip (0 # split_indices positions gap_threshold)
              (split_indices positions gap_threshold @ [length positions]))"

subsection \<open>Ramer-Douglas-Peucker\<close>

definition point_to_line_distance :: "vec3 \<Rightarrow> vec3 \<Rightarrow> vec3 \<Rightarrow> real" where
  "point_to_line_distance point line_start line_unit =
     (let point_vec = sub3 point line_start;
          projection_length = dot3 point_vec line_unit;
          projection_point = add3 line_start (scale3 projection_length line_unit)
      in norm3 (sub3 point projection_point))"

text \<open>The search for the farthest interior point; the state is \<open>(max_dist, max_idx)\<close>.\<close>

fun farthest_scan :: "vec3 list \<Rightarrow> vec3 \<Rightarrow> vec3 \<Rightarrow> nat list \<Rightarrow> real \<times> nat \<Rightarrow> real \<times> nat" where
  "farthest_scan points start line_unit [] (max_dist, max_idx) = (max_dist, max_idx)"
| "farthest_scan points start line_unit (i # rest) (max_dist, max_idx) =
     (if point_to_line_distance (points ! i) start line_unit > max_dist
      then farthest_scan points start line_unit rest
             (point_to_line_distance (points ! i) start line_unit, i)
      else farthest_scan points start line_unit rest (max_dist, max_idx))"

definition farthest_point :: "vec3 list \<Rightarrow> real \<times> nat" where
  "farthest_point points =
     (let start = points ! 0;
          line_vec = sub3 (last points) start;
          line_unit = scale3 (1 / norm3 line_vec) line_vec
      in farthest_scan points start line_unit [1..<length points - 1] (0, 0))"

lemma farthest_scan_idx:
  "snd (farthest_scan points start line_unit is (d, i)) = i \<or>
   snd (farthest_scan points start line_unit is (d, i)) \<in> set is"
proof (induction "is" arbitrary: d i)
  case Nil
  show ?case by simp
next
  case (Cons a rest)
  show ?case
    using Cons.IH [of "point_to_line_distance (points ! a) start line_unit" a] Cons.IH [of d i]
    by auto
qed

lemma farthest_point_idx: "snd (farthest_point points) + 2 \<le> length points \<or> snd (farthest_point points) = 0"
  using farthest_scan_idx [of points "points ! 0"
      "scale3 (1 / norm3 (sub3 (last points) (points ! 0))) (sub3 (last points) (points ! 0))"
      "[1..<length points - 1]" 0 0]
  by (auto simp: farthest_point_def Let_def)

text \<open>\<open>_rdp_recursive\<close>.  When the farthest distance exceeds \<open>epsilon\<close> while
  \<open>max_idx\<close> is still 0 (possible only for a negative \<open>epsilon\<close>), the right-hand call is
  made on \<open>points[0:]\<close>, the same array: the recursion never ends and Python raises
  \<open>RecursionError\<close>.\<close>

function rdp_recursive :: "vec3 list \<Rightarrow> real \<Rightarrow> error + nat list" where
  "rdp_recursive points epsilon =
     (if length points < 3 then Inr [0..<length points]
      else if norm3 (sub3 (last points) (points ! 0)) < 1 / 10 ^ 10
      then Inr [0, length points - 1]
      else if fst (farthest_point points) > epsilon
      then (if snd (farthest_point points) = 0 then Inl RecursionError
            else (case rdp_recursive (take (snd (farthest_point points) + 1) points) epsilon of
                    Inl e \<Rightarrow> Inl e
                  | Inr left_indices \<Rightarrow>
                      (case rdp_recursive (drop (snd (farthest_point points)) points) epsilon of
                         Inl e \<Rightarrow> Inl e
                       | Inr right_indices \<Rightarrow>
                           Inr (butlast left_indices @
                                map (\<lambda>idx. idx + snd (farthest_point points)) right_indices))))
      else Inr [0, length points - 1])"
  by pat_completeness auto
termination
proof (relation "measure (\<lambda>(points, epsilon). length points)")
  show "wf (measure (\<lambda>(points, epsilon). length points))" by simp
next
  fix points :: "vec3 list" and epsilon :: real
  assume "\<not> length points < 3" "snd (farthest_point points) \<noteq> 0"
  then show "((take (snd (farthest_point points) + 1) points, epsilon), points, epsilon)
             \<in> measure (\<lambda>(points, epsilon). length points)"
    using farthest_point_idx [of points] by simp
next
  fix points :: "vec3 list" and epsilon :: real
  assume "\<not> length points < 3" "snd (farthest_point points) \<noteq> 0"
  then show "((drop (snd (farthest_point points)) points, epsilon), points, epsilon)
             \<in> measure (\<lambda>(points, epsilon). length points)"
    by simp
qed

declare rdp_recursive.simps [simp del]

definition simplify_path_rdp :: "vec3 list \<Rightarrow> real \<Rightarrow> error + vec3 list" where
  "simplify_path_rdp positions epsilon =
     (if length positions < 3 then Inr positions
      else (case rdp_recursive positions epsilon of
              Inl e \<Rightarrow> Inl e
            | Inr indices \<Rightarrow> Inr (map (\<lambda>i. positions ! i) indices)))"

subsection \<open>Resampling and \<open>snap_to_lines\<close>\<close>

text \<open>One pass of the loop over consecutive vertex pairs of
  \<open>_interpolate_between_vertices\<close>.  A zero spacing makes \<open>seg_length / spacing\<close> infinite,
  and \<open>int\<close> of it raises \<open>OverflowError\<close>.\<close>

fun interpolate_scan :: "vec3 list \<Rightarrow> real \<Rightarrow> nat list \<Rightarrow> vec3 list \<Rightarrow> error + vec3 list" where
  "interpolate_scan vertices spacing [] result = Inr result"
| "interpolate_scan vertices spacing (i # rest) result =
     (let start = vertices ! i;
          end = vertices ! (i + 1);
          seg_length = norm3 (sub3 end start)
      in if seg_length < 1 / 10 ^ 10 then interpolate_scan vertices spacing rest result
         else if spacing = 0 then Inl OverflowError
         else (let n_points = max 1 (nat \<lceil>seg_length / spacing\<rceil>)
               in interpolate_scan vertices spacing rest
                    (result @ map (\<lambda>j. add3 start (scale3 (real j / real n_points) (sub3 end start)))
                                  [1..<n_points + 1])))"

definition interpolate_between_vertices :: "vec3 list \<Rightarrow> real \<Rightarrow> error + vec3 list" where
  "interpolate_between_vertices vertices spacing =
     interpolate_scan vertices spacing [0..<length vertices - 1] [vertices ! 0]"

text \<open>The loop over the segments of \<open>snap_to_lines\<close>, collecting \<open>result_segments\<close>.\<close>

fun snap_segments :: "vec3 list list \<Rightarrow> real \<Rightarrow> real \<Rightarrow> vec3 list list \<Rightarrow> error + vec3 list list" where
  "snap_segments [] epsilon point_spacing result_segments = Inr result_segments"
| "snap_segments (seg # rest) epsilon point_spacing result_segments =
     (if length seg < 2 then snap_segments rest epsilon point_spacing (result_segments @ [seg])
      else (case simplify_path_rdp seg epsilon of
              Inl e \<Rightarrow> Inl e
            | Inr vertices \<Rightarrow>
                if length vertices < 2
                then snap_segments rest epsilon point_spacing (result_segments @ [vertices])
                else (case interpolate_between_vertices vertices point_spacing of
                        Inl e \<Rightarrow> Inl e
                      | Inr interpolated \<Rightarrow>
                          snap_segments rest epsilon point_spacing
                            (result_segments @ [interpolated]))))"

text \<open>\<open>np.concatenate\<close> raises \<open>ValueError\<close> when handed no array at all.\<close>

definition np_concatenate :: "vec3 list list \<Rightarrow> error + vec3 list" where
  "np_concatenate arrays = (if arrays = [] then Inl ValueError else Inr (concat arrays))"

definition snap_to_lines :: "vec3 list \<Rightarrow> real \<Rightarrow> real \<Rightarrow> real \<Rightarrow> error + vec3 list" where
  "snap_to_lines positions epsilon point_spacing gap_threshold =
     (if length positions < 3 then Inr positions
      else (case snap_segments (split_at_gaps positions gap_threshold) epsilon point_spacing [] of
              Inl e \<Rightarrow> Inl e
            | Inr result_segments \<Rightarrow> np_concatenate result_segments))"

section \<open>Binary64 arithmetic\<close>

text \<open>NumPy and Python compute with IEEE-754 binary64 numbers: every sum, difference, product
  and square root is the exact result rounded to the nearest representable number, ties to the
  even mantissa.  A number is modelled by the real it denotes and rounding by \<open>float64\<close>:
  around \<open>x\<close> the representable numbers are the multiples of \<open>quantum64 x\<close>, which is
  \<open>2^(e - 52)\<close> for \<open>2^e \<le> |x| < 2^(e + 1)\<close> and \<open>2^(-1074)\<close> below \<open>2^(-1022)\<close>.
  Overflow to infinity (magnitudes from \<open>2^1024\<close> on) is not modelled; the statements below
  bound the coordinates so that it cannot occur.\<close>

definition round_even :: "real \<Rightarrow> int" where
  "round_even y =
     (if y - of_int \<lfloor>y\<rfloor> < 1 / 2 then \<lfloor>y\<rfloor>
      else if 1 / 2 < y - of_int \<lfloor>y\<rfloor> then \<lfloor>y\<rfloor> + 1
      else if even \<lfloor>y\<rfloor> then \<lfloor>y\<rfloor> else \<lfloor>y\<rfloor> + 1)"

definition quantum64 :: "real \<Rightarrow> real" where
  "quantum64 x = 2 powr (real_of_int (max \<lfloor>log 2 \<bar>x\<bar>\<rfloor> (- 1022)) - 52)"

definition float64 :: "real \<Rightarrow> real" where
  "float64 x =
     (if x = 0 then 0
      else sgn x * (real_of_int (round_even (\<bar>x\<bar> / quantum64 x)) * quantum64 x))"

text \<open>The unit roundoff \<open>2^(-53)\<close>.\<close>

definition eps64 :: real where
  "eps64 = 1 / 2 ^ 53"

text \<open>\<open>a - b\<close> on two rows, and \<open>np.linalg.norm\<close> of a row: the square root of the dot
  product of the row with itself, the products added from left to right.\<close>

definition sub_f64 :: "vec3 \<Rightarrow> vec3 \<Rightarrow> vec3" where
  "sub_f64 a b =
     (case a of (ax, ay, az) \<Rightarrow> case b of (bx, by, bz) \<Rightarrow>
        (float64 (ax - bx), float64 (ay - by), float64 (az - bz)))"

definition norm_f64 :: "vec3 \<Rightarrow> real" where
  "norm_f64 v =
     (case v of (x, y, z) \<Rightarrow>
        float64 (sqrt (float64 (float64 (float64 (x * x) + float64 (y * y)) + float64 (z * z)))))"

section \<open>Graph builder (junction_detection.py)\<close>

datatype node_type = WAYPOINT | JUNCTION | ENDPOINT | POI_CANDIDATE | PASSAGE_ENTRY | PASSAGE_EXIT

datatype edge_kind = HORIZONTAL | VERTICAL_STAIRCASE | VERTICAL_ELEVATOR

text \<open>\<open>PathNode\<close> and \<open>PathEdge\<close>.  Identifiers come from \<open>uuid.uuid4()\<close>; the model draws
  them from a counter that every function takes and returns, so that each call yields an
  identifier not used before.  The \<open>metadata\<close> fields are never written and are left out.\<close>

record path_node =
  node_id :: nat
  node_x :: real
  node_y :: real
  node_z :: real
  node_type :: node_type
  original_index :: nat
  floor_level :: "int option"

record path_edge =
  edge_id :: nat
  from_node_id :: nat
  to_node_id :: nat
  distance :: real
  is_bidirectional :: bool
  edge_type :: edge_kind

definition node_pos :: "path_node \<Rightarrow> vec3" where
  "node_pos n = (node_x n, node_y n, node_z n)"

definition mk_node :: "nat \<Rightarrow> vec3 \<Rightarrow> node_type \<Rightarrow> nat \<Rightarrow> int option \<Rightarrow> path_node" where
  "mk_node uid p t idx fl =
     \<lparr>node_id = uid, node_x = fst p, node_y = fst (snd p), node_z = snd (snd p),
      node_type = t, original_index = idx, floor_level = fl\<rparr>"

subsection \<open>Junction detection\<close>

text \<open>The junction dictionaries, with the keys that later code reads.\<close>

record junction =
  j_index :: nat
  j_position :: vec3
  angle_change :: real

definition angle_between_vectors :: "vec3 \<Rightarrow> vec3 \<Rightarrow> real" where
  "angle_between_vectors v1 v2 =
     (if norm3 v1 < 1 / 10 ^ 10 \<or> norm3 v2 < 1 / 10 ^ 10 then 0
      else arccos (min 1 (max (- 1) (dot3 v1 v2 / (norm3 v1 * norm3 v2)))) * 180 / pi)"

text \<open>\<open>_merge_nearby_junctions\<close>: the inner loop gathers the unused junctions within the
  radius of the group's first member; the outer loop turns every group into one junction.\<close>

fun collect_group ::
  "vec3 \<Rightarrow> real \<Rightarrow> (nat \<times> junction) list \<Rightarrow> junction list \<times> nat set \<Rightarrow> junction list \<times> nat set" where
  "collect_group pos1 merge_radius [] (grp, used) = (grp, used)"
| "collect_group pos1 merge_radius ((k, j2) # rest) (grp, used) =
     (if k \<in> used then collect_group pos1 merge_radius rest (grp, used)
      else if norm3 (sub3 pos1 (j_position j2)) < merge_radius
      then collect_group pos1 merge_radius rest (grp @ [j2], insert k used)
      else collect_group pos1 merge_radius rest (grp, used))"

definition centroid :: "vec3 list \<Rightarrow> vec3" where
  "centroid ps = scale3 (1 / real (length ps)) (foldr add3 ps (0, 0, 0))"

definition group_junction :: "junction list \<Rightarrow> junction" where
  "group_junction grp =
     (if length grp = 1 then hd grp
      else \<lparr>j_index = j_index (hd grp),
            j_position = centroid (map j_position grp),
            angle_change = fold max (map angle_change grp) (angle_change (hd grp))\<rparr>)"

fun merge_scan ::
  "real \<Rightarrow> (nat \<times> junction) list \<Rightarrow> (nat \<times> junction) list \<Rightarrow> junction list \<times> nat set
     \<Rightarrow> junction list \<times> nat set" where
  "merge_scan merge_radius all_js [] (merged, used) = (merged, used)"
| "merge_scan merge_radius all_js ((i, j1) # rest) (merged, used) =
     (if i \<in> used then merge_scan merge_radius all_js rest (merged, used)
      else (case collect_group (j_position j1) merge_radius all_js ([j1], insert i used) of
              (grp, used') \<Rightarrow>
                merge_scan merge_radius all_js rest (merged @ [group_junction grp], used')))"

definition merge_nearby_junctions :: "junction list \<Rightarrow> real \<Rightarrow> junction list" where
  "merge_nearby_junctions junctions merge_radius =
     (if length junctions < 2 then junctions
      else fst (merge_scan merge_radius (zip [0..<length junctions] junctions)
                  (zip [0..<length junctions] junctions) ([], {})))"

text \<open>\<open>detect_junctions\<close>: \<open>directions[i]\<close> is \<open>positions[i + 1] - positions[i]\<close>, and the loop
  runs over \<open>range(1, len(directions) - 1)\<close>.\<close>

definition junction_candidates :: "vec3 list \<Rightarrow> real \<Rightarrow> nat \<Rightarrow> junction list" where
  "junction_candidates positions angle_threshold min_branch_points =
     map (\<lambda>i. \<lparr>j_index = i, j_position = positions ! i,
               angle_change = angle_between_vectors
                                (sub3 (positions ! i) (positions ! (i - 1)))
                                (sub3 (positions ! (i + 1)) (positions ! i))\<rparr>)
         (filter (\<lambda>i. angle_between_vectors
                         (sub3 (positions ! i) (positions ! (i - 1)))
                         (sub3 (positions ! (i + 1)) (positions ! i)) \<ge> angle_threshold
                     \<and> i \<ge> min_branch_points
                     \<and> length positions - i - 1 \<ge> min_branch_points)
                 [1..<length positions - 2])"

definition detect_junctions :: "vec3 list \<Rightarrow> real \<Rightarrow> nat \<Rightarrow> junction list" where
  "detect_junctions positions angle_threshold min_branch_points =
     (if length positions < 5 then []
      else merge_nearby_junctions
             (junction_candidates positions angle_threshold min_branch_points) (3 / 2))"

subsection \<open>Node extraction\<close>

text \<open>The loop over the interior indices of \<open>extract_path_nodes\<close>; the state is the node list,
  \<open>last_node_pos\<close> and the identifier counter.\<close>

fun node_scan ::
  "vec3 list \<Rightarrow> nat set \<Rightarrow> real \<Rightarrow> int option \<Rightarrow> nat list \<Rightarrow> path_node list \<times> vec3 \<times> nat
     \<Rightarrow> path_node list \<times> vec3 \<times> nat" where
  "node_scan positions junction_indices node_spacing fl [] st = st"
| "node_scan positions junction_indices node_spacing fl (i # rest) (nodes, last_node_pos, uid) =
     (if i \<in> junction_indices
      then node_scan positions junction_indices node_spacing fl rest
             (nodes @ [mk_node uid (positions ! i) JUNCTION i fl], positions ! i, uid + 1)
      else if norm3 (sub3 (positions ! i) last_node_pos) \<ge> node_spacing
      then node_scan positions junction_indices node_spacing fl rest
             (nodes @ [mk_node uid (positions ! i) WAYPOINT i fl], positions ! i, uid + 1)
      else node_scan positions junction_indices node_spacing fl rest (nodes, last_node_pos, uid))"

definition extract_path_nodes ::
  "vec3 list \<Rightarrow> junction list option \<Rightarrow> real \<Rightarrow> int option \<Rightarrow> nat \<Rightarrow> path_node list \<times> nat" where
  "extract_path_nodes positions junctions node_spacing fl uid =
     (if length positions < 2 then ([], uid)
      else (case node_scan positions
                   (set (map j_index (case junctions of
                                        None \<Rightarrow> detect_junctions positions 45 3
                                      | Some js \<Rightarrow> js)))
                   node_spacing fl [1..<length positions - 1]
                   ([mk_node uid (positions ! 0) ENDPOINT 0 fl], positions ! 0, uid + 1) of
              (nodes, last_node_pos, uid') \<Rightarrow>
                (nodes @ [mk_node uid' (positions ! (length positions - 1)) ENDPOINT
                            (length positions - 1) fl],
                 uid' + 1)))"

subsection \<open>Edge extraction\<close>

text \<open>\<open>_calculate_path_distance\<close>: the running binary64 sum of the segment lengths.\<close>

definition calculate_path_distance :: "vec3 list \<Rightarrow> nat \<Rightarrow> nat \<Rightarrow> real" where
  "calculate_path_distance positions start_idx end_idx =
     (if start_idx \<ge> end_idx then 0
      else fold (\<lambda>i total_distance.
                   float64 (total_distance + norm_f64 (sub_f64 (positions ! (i + 1)) (positions ! i))))
                [start_idx..<end_idx] 0)"

text \<open>The loop over consecutive pairs of the sorted node list.\<close>

fun edge_scan ::
  "vec3 list \<Rightarrow> real \<Rightarrow> path_node list \<Rightarrow> path_edge list \<times> nat \<Rightarrow> path_edge list \<times> nat" where
  "edge_scan positions max_distance (node1 # node2 # rest) (edges, uid) =
     (if calculate_path_distance positions (original_index node1) (original_index node2)
           \<le> max_distance
      then edge_scan positions max_distance (node2 # rest)
             (edges @ [\<lparr>edge_id = uid, from_node_id = node_id node1, to_node_id = node_id node2,
                        distance = calculate_path_distance positions
                                     (original_index node1) (original_index node2),
                        is_bidirectional = True, edge_type = HORIZONTAL\<rparr>],
              uid + 1)
      else edge_scan positions max_distance (node2 # rest) (edges, uid))"
| "edge_scan positions max_distance [node1] st = st"
| "edge_scan positions max_distance [] st = st"

definition extract_path_edges ::
  "path_node list \<Rightarrow> vec3 list \<Rightarrow> real \<Rightarrow> nat \<Rightarrow> path_edge list \<times> nat" where
  "extract_path_edges nodes positions max_distance uid =
     (if length nodes < 2 then ([], uid)
      else edge_scan positions max_distance (sort_key original_index nodes) ([], uid))"

text \<open>\<open>build_path_graph\<close>, with \<open>MIN_BRANCH_LENGTH = 3\<close> and
  \<open>EDGE_CONNECTION_RADIUS = 3.0\<close> as the inner calls default them.\<close>

definition build_path_graph ::
  "vec3 list \<Rightarrow> int option \<Rightarrow> real \<Rightarrow> real \<Rightarrow> nat \<Rightarrow> (path_node list \<times> path_edge list) \<times> nat" where
  "build_path_graph positions fl node_spacing angle_threshold uid =
     (case extract_path_nodes positions (Some (detect_junctions positions angle_threshold 3))
             node_spacing fl uid of
        (nodes, uid') \<Rightarrow>
          (case extract_path_edges nodes positions 3 uid' of
             (edges, uid'') \<Rightarrow> ((nodes, edges), uid'')))"

section \<open>Vertical passages and the floor graph merger\<close>

datatype passage_type = STAIRCASE | ELEVATOR

datatype direction = UP | DOWN

text \<open>The passage dictionaries.  \<open>detect_stairs_first\<close> writes the first nine keys,
  \<open>assign_floors_to_stairs\<close> adds \<open>from_floor\<close> and \<open>to_floor\<close>; \<open>merge_floor_graphs\<close> reads
  \<open>entry_point\<close> and \<open>exit_point\<close> with \<open>dict.get\<close>.  A key that may be absent is an option,
  \<open>None\<close> when the dictionary does not hold it.  \<open>xy_z_ratio\<close> is \<open>None\<close> for
  \<open>float('inf')\<close>.\<close>

record passage =
  passage_type :: passage_type
  start_idx :: nat
  end_idx :: nat
  passage_positions :: "vec3 list"
  z_start :: real
  z_end :: real
  z_displacement :: real
  xy_z_ratio :: "real option"
  direction :: direction
  from_floor :: "int option"
  to_floor :: "int option"
  entry_point :: "vec3 option"
  exit_point :: "vec3 option"

subsection \<open>\<open>merge_floor_graphs\<close>\<close>

text \<open>\<open>_find_nearest_node_to_position\<close>; \<open>min_dist = None\<close> stands for the initial
  \<open>float('inf')\<close>.\<close>

fun nearest_scan ::
  "vec3 \<Rightarrow> int option \<Rightarrow> path_node list \<Rightarrow> real option \<times> path_node option
     \<Rightarrow> real option \<times> path_node option" where
  "nearest_scan target fl [] st = st"
| "nearest_scan target fl (node # rest) (min_dist, nearest) =
     (if fl \<noteq> None \<and> floor_level node \<noteq> fl then nearest_scan target fl rest (min_dist, nearest)
      else if (case min_dist of None \<Rightarrow> True
               | Some m \<Rightarrow> norm3 (sub3 target (node_pos node)) < m)
      then nearest_scan target fl rest (Some (norm3 (sub3 target (node_pos node))), Some node)
      else nearest_scan target fl rest (min_dist, nearest))"

definition find_nearest_node_to_position ::
  "path_node list \<Rightarrow> vec3 option \<Rightarrow> int option \<Rightarrow> path_node option" where
  "find_nearest_node_to_position nodes position fl =
     (case position of
        None \<Rightarrow> None
      | Some target \<Rightarrow> if nodes = [] then None else snd (nearest_scan target fl nodes (None, None)))"

definition vertical_edge_kind :: "passage_type \<Rightarrow> edge_kind" where
  "vertical_edge_kind t = (case t of STAIRCASE \<Rightarrow> VERTICAL_STAIRCASE | ELEVATOR \<Rightarrow> VERTICAL_ELEVATOR)"

text \<open>The loop over the passages; the state is \<open>all_edges\<close> and the identifier counter.\<close>

fun passage_scan ::
  "path_node list \<Rightarrow> passage list \<Rightarrow> path_edge list \<times> nat \<Rightarrow> path_edge list \<times> nat" where
  "passage_scan all_nodes [] st = st"
| "passage_scan all_nodes (p # rest) (all_edges, uid) =
     (case (find_nearest_node_to_position all_nodes (entry_point p) (from_floor p),
            find_nearest_node_to_position all_nodes (exit_point p) (to_floor p)) of
        (Some entry_node, Some exit_node) \<Rightarrow>
          passage_scan all_nodes rest
            (all_edges @ [\<lparr>edge_id = uid, from_node_id = node_id entry_node,
                           to_node_id = node_id exit_node, distance = z_displacement p,
                           is_bidirectional = True,
                           edge_type = vertical_edge_kind (passage_type p)\<rparr>],
             uid + 1)
      | _ \<Rightarrow> passage_scan all_nodes rest (all_edges, uid))"

text \<open>The floor graphs are a dictionary keyed by floor level; it is traversed in insertion
  order, so the model is an association list.\<close>

definition merge_floor_graphs ::
  "(int \<times> path_node list \<times> path_edge list) list \<Rightarrow> passage list \<Rightarrow> nat
     \<Rightarrow> path_node list \<times> path_edge list" where
  "merge_floor_graphs floor_graphs vertical_passages uid =
     (concat (map (\<lambda>(level, nodes, edges). nodes) floor_graphs),
      fst (passage_scan (concat (map (\<lambda>(level, nodes, edges). nodes) floor_graphs))
             vertical_passages
             (concat (map (\<lambda>(level, nodes, edges). edges) floor_graphs), uid)))"

subsection \<open>The graph and result stages of the pipeline (main.py)\<close>

text \<open>Step 7 of \<open>process_path_async\<close>: one graph per flattened floor, then the merge.\<close>

fun build_floor_graphs ::
  "(int \<times> vec3 list) list \<Rightarrow> nat \<Rightarrow> (int \<times> path_node list \<times> path_edge list) list \<times> nat" where
  "build_floor_graphs [] uid = ([], uid)"
| "build_floor_graphs ((level, positions) # rest) uid =
     (case build_path_graph positions (Some level) 1 45 uid of
        ((nodes, edges), uid') \<Rightarrow>
          (case build_floor_graphs rest uid' of
             (graphs, uid'') \<Rightarrow> ((level, nodes, edges) # graphs, uid'')))"

definition graph_stage ::
  "(int \<times> vec3 list) list \<Rightarrow> passage list \<Rightarrow> nat \<Rightarrow> path_node list \<times> path_edge list" where
  "graph_stage smoothed_floors vertical_passages uid =
     (case build_floor_graphs smoothed_floors uid of
        (floor_graphs, uid') \<Rightarrow> merge_floor_graphs floor_graphs vertical_passages uid')"

text \<open>\<open>_build_processing_result\<close>, restricted to \<open>total_nodes\<close>, \<open>total_distance\<close> and
  the graph.  \<open>total_distance\<close> is one running binary64 sum over all floors: the segment loop
  of a floor adds \<open>float(np.linalg.norm(end - start))\<close> for every \<open>i\<close> in
  \<open>range(len(positions) - 1)\<close>.  The bounds of a floor without points are a \<open>min\<close> over an
  empty array, which raises \<open>ValueError\<close>.\<close>

definition segment_scan :: "vec3 list \<Rightarrow> real \<Rightarrow> real" where
  "segment_scan positions acc_distance =
     fold (\<lambda>i total_distance.
             float64 (total_distance + norm_f64 (sub_f64 (positions ! (i + 1)) (positions ! i))))
          [0..<length positions - 1] acc_distance"

record processing_result =
  total_nodes :: nat
  total_distance :: real
  path_nodes :: "path_node list"
  path_edges :: "path_edge list"

fun floor_path_scan :: "(int \<times> vec3 list) list \<Rightarrow> real \<Rightarrow> error + real" where
  "floor_path_scan [] acc_distance = Inr acc_distance"
| "floor_path_scan ((level, positions) # rest) acc_distance =
     (if positions = [] then Inl ValueError
      else floor_path_scan rest (segment_scan positions acc_distance))"

definition build_processing_result ::
  "vec3 list \<Rightarrow> (int \<times> vec3 list) list \<Rightarrow> path_node list \<Rightarrow> path_edge list
     \<Rightarrow> error + processing_result" where
  "build_processing_result raw_positions smoothed_floors all_nodes all_edges =
     (case floor_path_scan smoothed_floors 0 of
        Inl e \<Rightarrow> Inl e
      | Inr acc_distance \<Rightarrow>
          Inr \<lparr>total_nodes = length raw_positions, total_distance = acc_distance,
               path_nodes = all_nodes, path_edges = all_edges\<rparr>)"

text \<open>Steps 7 and 9 chained as \<open>process_path_async\<close> does.\<close>

definition pipeline_result ::
  "vec3 list \<Rightarrow> (int \<times> vec3 list) list \<Rightarrow> passage list \<Rightarrow> nat \<Rightarrow> error + processing_result" where
  "pipeline_result raw_positions smoothed_floors vertical_passages uid =
     (case graph_stage smoothed_floors vertical_passages uid of
        (all_nodes, all_edges) \<Rightarrow>
          build_processing_result raw_positions smoothed_floors all_nodes all_edges)"

text \<open>The sum of the distances of the HORIZONTAL edges of a graph.\<close>

definition horizontal_distance :: "path_edge list \<Rightarrow> real" where
  "horizontal_distance edges =
     sum_list (map distance (filter (\<lambda>e. edge_type e = HORIZONTAL) edges))"

section \<open>Vertical detector (vertical_detector.py)\<close>

definition z_of :: "vec3 \<Rightarrow> real" where
  "z_of p = snd (snd p)"

subsection \<open>Step 1: sliding window\<close>

text \<open>The test made for the window starting at \<open>i\<close>: enough net change of \<open>z\<close> over the
  window, and more than half of the \<open>window_size\<close> steps moving in the direction of the net
  change by more than half the step threshold.  \<open>z_diff[k]\<close> is \<open>z[k + 1] - z[k]\<close>.\<close>

definition window_marked :: "real list \<Rightarrow> nat \<Rightarrow> real \<Rightarrow> nat \<Rightarrow> real \<Rightarrow> bool" where
  "window_marked z i z_change_threshold window_size min_total_z_change =
     (if \<bar>z ! (i + window_size) - z ! i\<bar> > min_total_z_change * (real window_size / 20)
      then (if z ! (i + window_size) - z ! i > 0
            then real (length (filter (\<lambda>k. z ! (k + 1) - z ! k > z_change_threshold / 2)
                                      [i..<i + window_size]))
                   > real window_size * (1 / 2)
            else real (length (filter (\<lambda>k. z ! (k + 1) - z ! k < - z_change_threshold / 2)
                                      [i..<i + window_size]))
                   > real window_size * (1 / 2))
      else False)"

text \<open>The slice assignment \<open>xs[a:b] = True\<close>.\<close>

definition set_range :: "bool list \<Rightarrow> nat \<Rightarrow> nat \<Rightarrow> bool list" where
  "set_range xs a b = map (\<lambda>k. (a \<le> k \<and> k < b) \<or> xs ! k) [0..<length xs]"

fun mark_windows :: "real list \<Rightarrow> real \<Rightarrow> nat \<Rightarrow> real \<Rightarrow> nat list \<Rightarrow> bool list \<Rightarrow> bool list" where
  "mark_windows z z_change_threshold window_size min_total_z_change [] changing_z = changing_z"
| "mark_windows z z_change_threshold window_size min_total_z_change (i # rest) changing_z =
     (if window_marked z i z_change_threshold window_size min_total_z_change
      then mark_windows z z_change_threshold window_size min_total_z_change rest
             (set_range changing_z i (i + window_size + 1))
      else mark_windows z z_change_threshold window_size min_total_z_change rest changing_z)"

subsection \<open>Step 2: grouping runs into passages\<close>

text \<open>The inner loop \<open>while i < n and changing_z[i]: i += 1\<close>.\<close>

function run_end :: "bool list \<Rightarrow> nat \<Rightarrow> nat \<Rightarrow> nat" where
  "run_end changing_z n i = (if i < n \<and> changing_z ! i then run_end changing_z n (i + 1) else i)"
  by pat_completeness auto
termination
  by (relation "measure (\<lambda>(changing_z, n, i). n - i)") auto

declare run_end.simps [simp del]

lemma run_end_ge: "i \<le> run_end changing_z n i"
proof (induction changing_z n i rule: run_end.induct)
  case (1 changing_z n i)
  show ?case
  proof (cases "i < n \<and> changing_z ! i")
    case True
    with 1 have "i + 1 \<le> run_end changing_z n (i + 1)" by simp
    with True show ?thesis by (subst run_end.simps) simp
  next
    case False
    then show ?thesis by (subst run_end.simps) auto
  qed
qed

lemma run_end_gt: "i < n \<Longrightarrow> changing_z ! i \<Longrightarrow> i < run_end changing_z n i"
  using run_end_ge [of "i + 1" changing_z n] by (subst run_end.simps) simp

text \<open>\<open>np.sum(np.sqrt(np.sum(xy_diffs**2, axis=1)))\<close> over the rows of a segment.\<close>

definition xy_path_length :: "vec3 list \<Rightarrow> real" where
  "xy_path_length seg =
     sum_list (map (\<lambda>k. sqrt ((fst (seg ! (k + 1)) - fst (seg ! k))\<^sup>2
                            + (fst (snd (seg ! (k + 1))) - fst (snd (seg ! k)))\<^sup>2))
                   [0..<length seg - 1])"

definition xy_z_ratio_of :: "real \<Rightarrow> real \<Rightarrow> real option" where
  "xy_z_ratio_of total_xy_dist z_disp = (if z_disp > 0 then Some (total_xy_dist / z_disp) else None)"

definition classify :: "real option \<Rightarrow> passage_type" where
  "classify ratio = (case ratio of None \<Rightarrow> STAIRCASE
                     | Some r \<Rightarrow> if r < 1 then ELEVATOR else STAIRCASE)"

text \<open>The dictionary appended for a run \<open>[start_idx, end_idx)\<close> that passes the two tests.\<close>

definition new_passage :: "vec3 list \<Rightarrow> nat \<Rightarrow> nat \<Rightarrow> passage" where
  "new_passage positions start_i end_i =
     \<lparr>passage_type =
        classify (xy_z_ratio_of (xy_path_length (take (end_i - start_i) (drop start_i positions)))
                    \<bar>z_of (positions ! (end_i - 1)) - z_of (positions ! start_i)\<bar>),
      start_idx = start_i,
      end_idx = end_i,
      passage_positions = take (end_i - start_i) (drop start_i positions),
      z_start = z_of (positions ! start_i),
      z_end = z_of (positions ! (end_i - 1)),
      z_displacement = \<bar>z_of (positions ! (end_i - 1)) - z_of (positions ! start_i)\<bar>,
      xy_z_ratio = xy_z_ratio_of (xy_path_length (take (end_i - start_i) (drop start_i positions)))
                     \<bar>z_of (positions ! (end_i - 1)) - z_of (positions ! start_i)\<bar>,
      direction = (if z_of (positions ! (end_i - 1)) > z_of (positions ! start_i) then UP else DOWN),
      from_floor = None, to_floor = None, entry_point = None, exit_point = None\<rparr>"

text \<open>The outer loop \<open>while i < n\<close>; the state is \<open>(stair_segments, is_stair)\<close>.\<close>

function group_runs ::
  "vec3 list \<Rightarrow> bool list \<Rightarrow> real \<Rightarrow> nat \<Rightarrow> nat \<Rightarrow> passage list \<times> bool list
     \<Rightarrow> passage list \<times> bool list" where
  "group_runs positions changing_z min_total_z_change min_stair_points i (stair_segments, is_stair) =
     (if i < length positions
      then (if changing_z ! i
            then (if \<bar>z_of (positions ! (run_end changing_z (length positions) i - 1))
                       - z_of (positions ! i)\<bar> \<ge> min_total_z_change
                     \<and> run_end changing_z (length positions) i - i \<ge> min_stair_points
                  then group_runs positions changing_z min_total_z_change min_stair_points
                         (run_end changing_z (length positions) i)
                         (stair_segments
                            @ [new_passage positions i (run_end changing_z (length positions) i)],
                          set_range is_stair i (run_end changing_z (length positions) i))
                  else group_runs positions changing_z min_total_z_change min_stair_points
                         (run_end changing_z (length positions) i) (stair_segments, is_stair))
            else group_runs positions changing_z min_total_z_change min_stair_points (i + 1)
                   (stair_segments, is_stair))
      else (stair_segments, is_stair))"
  by pat_completeness auto
termination
proof (relation "measure (\<lambda>(positions, changing_z, m, k, i, st). length positions - i)")
  show "wf (measure (\<lambda>(positions, changing_z, m, k, i, st). length positions - i))" by simp
next
  fix positions :: "vec3 list" and changing_z and m :: real and k :: nat and i :: nat
    and stair_segments :: "passage list" and is_stair :: "bool list"
  assume a: "i < length positions" "changing_z ! i"
  show "((positions, changing_z, m, k, run_end changing_z (length positions) i,
          stair_segments @ [new_passage positions i (run_end changing_z (length positions) i)],
          set_range is_stair i (run_end changing_z (length positions) i)),
         positions, changing_z, m, k, i, stair_segments, is_stair)
        \<in> measure (\<lambda>(positions, changing_z, m, k, i, st). length positions - i)"
    using run_end_gt [OF a] a(1) by simp
next
  fix positions :: "vec3 list" and changing_z and m :: real and k :: nat and i :: nat
    and stair_segments :: "passage list" and is_stair :: "bool list"
  assume a: "i < length positions" "changing_z ! i"
  show "((positions, changing_z, m, k, run_end changing_z (length positions) i,
          stair_segments, is_stair),
         positions, changing_z, m, k, i, stair_segments, is_stair)
        \<in> measure (\<lambda>(positions, changing_z, m, k, i, st). length positions - i)"
    using run_end_gt [OF a] a(1) by simp
next
  fix positions :: "vec3 list" and changing_z :: "bool list" and m :: real and k :: nat
    and i :: nat and stair_segments :: "passage list" and is_stair :: "bool list"
  assume "i < length positions"
  then show "((positions, changing_z, m, k, i + 1, stair_segments, is_stair),
              positions, changing_z, m, k, i, stair_segments, is_stair)
             \<in> measure (\<lambda>(positions, changing_z, m, k, i, st). length positions - i)"
    by simp
qed

declare group_runs.simps [simp del]

subsection \<open>Step 3: merging adjacent passages\<close>

text \<open>\<open>_merge_stair_segments\<close>: the loop over \<open>segments[1:]\<close> with the passage \<open>current\<close>
  under construction.  On a merge the end index, the positions, \<open>z_end\<close>, the displacement, the
  ratio and the type of \<open>current\<close> are rewritten; its direction is not.\<close>

fun merge_segments_loop ::
  "vec3 list \<Rightarrow> nat \<Rightarrow> passage list \<Rightarrow> passage \<Rightarrow> passage list \<Rightarrow> passage list" where
  "merge_segments_loop positions gap_threshold [] current merged = merged @ [current]"
| "merge_segments_loop positions gap_threshold (seg # rest) current merged =
     (if direction current = direction seg
         \<and> int (start_idx seg) - int (end_idx current) < int gap_threshold
      then merge_segments_loop positions gap_threshold rest
             (current\<lparr>end_idx := end_idx seg,
                      passage_positions :=
                        take (end_idx seg - start_idx current) (drop (start_idx current) positions),
                      z_end := z_end seg,
                      z_displacement := \<bar>z_end seg - z_start current\<bar>,
                      xy_z_ratio :=
                        xy_z_ratio_of
                          (xy_path_length (take (end_idx seg - start_idx current)
                                                (drop (start_idx current) positions)))
                          \<bar>z_end seg - z_start current\<bar>,
                      passage_type :=
                        classify (xy_z_ratio_of
                          (xy_path_length (take (end_idx seg - start_idx current)
                                                (drop (start_idx current) positions)))
                          \<bar>z_end seg - z_start current\<bar>)\<rparr>)
             merged
      else merge_segments_loop positions gap_threshold rest seg (merged @ [current]))"

definition merge_stair_segments :: "passage list \<Rightarrow> vec3 list \<Rightarrow> nat \<Rightarrow> passage list" where
  "merge_stair_segments segments positions gap_threshold =
     (if length segments < 2 then segments
      else merge_segments_loop positions gap_threshold (tl segments) (hd segments) [])"

text \<open>\<open>detect_stairs_first\<close>, with \<open>GAP_THRESHOLD = 10\<close> for the merge.\<close>

definition changing_z_mask :: "vec3 list \<Rightarrow> real \<Rightarrow> nat \<Rightarrow> real \<Rightarrow> bool list" where
  "changing_z_mask positions z_change_threshold window_size min_total_z_change =
     mark_windows (map z_of positions) z_change_threshold window_size min_total_z_change
       [0..<length positions - window_size] (replicate (length positions) False)"

definition detect_stairs_first ::
  "vec3 list \<Rightarrow> real \<Rightarrow> nat \<Rightarrow> real \<Rightarrow> nat \<Rightarrow> passage list \<times> bool list" where
  "detect_stairs_first positions z_change_threshold window_size min_total_z_change min_stair_points =
     (case group_runs positions
             (changing_z_mask positions z_change_threshold window_size min_total_z_change)
             min_total_z_change min_stair_points 0 ([], replicate (length positions) False) of
        (stair_segments, is_stair) \<Rightarrow> (merge_stair_segments stair_segments positions 10, is_stair))"

subsection \<open>Floor assignment\<close>

text \<open>The per-floor record of \<open>separate_floors\<close>.\<close>

record floor_data =
  floor_positions :: "vec3 list"
  floor_node_ids :: "int list"
  floor_indices :: "nat list"
  z_mean :: real
  z_min :: real
  z_max :: real
  point_count :: nat

text \<open>\<open>_find_nearest_floor\<close>; \<open>best_dist = None\<close> stands for \<open>float('inf')\<close>.\<close>

fun nearest_floor_scan :: "real \<Rightarrow> (int \<times> floor_data) list \<Rightarrow> int \<times> real option \<Rightarrow> int \<times> real option" where
  "nearest_floor_scan z_value [] st = st"
| "nearest_floor_scan z_value ((floor_num, d) # rest) (best_floor, best_dist) =
     (if (case best_dist of None \<Rightarrow> True | Some b \<Rightarrow> \<bar>z_mean d - z_value\<bar> < b)
      then nearest_floor_scan z_value rest (floor_num, Some \<bar>z_mean d - z_value\<bar>)
      else nearest_floor_scan z_value rest (best_floor, best_dist))"

definition find_nearest_floor :: "real \<Rightarrow> (int \<times> floor_data) list \<Rightarrow> int" where
  "find_nearest_floor z_value floors_data =
     (if floors_data = [] then 0 else fst (nearest_floor_scan z_value floors_data (0, None)))"

definition assign_floors_to_stairs :: "passage list \<Rightarrow> (int \<times> floor_data) list \<Rightarrow> passage list" where
  "assign_floors_to_stairs stair_segments floors_data =
     map (\<lambda>segment. segment\<lparr>from_floor := Some (find_nearest_floor (z_start segment) floors_data),
                              to_floor := Some (find_nearest_floor (z_end segment) floors_data)\<rparr>)
         stair_segments"

section \<open>Pose reader (extraction.py)\<close>

type_synonym byte = "8 word"

text \<open>What \<open>struct.unpack\<close> yields for one \<open>f\<close> field: the value of an IEEE-754 binary32
  pattern.  Python widens it to a double without loss, so a finite value is modelled by the real
  number it denotes.\<close>

datatype float_val = Finite real | PosInf | NegInf | NaN

text \<open>Four bytes read as a little-endian 32-bit pattern, and the value of the pattern:
  sign bit, 8 exponent bits, 23 fraction bits.\<close>

definition le_bits :: "byte list \<Rightarrow> nat" where
  "le_bits bs = unat (bs ! 0) + 256 * unat (bs ! 1) + 65536 * unat (bs ! 2) + 16777216 * unat (bs ! 3)"

definition decode_float32 :: "nat \<Rightarrow> float_val" where
  "decode_float32 w =
     (let sign_bit = w div 2 ^ 31;
          e = (w div 2 ^ 23) mod 256;
          m = w mod 2 ^ 23;
          s = (if sign_bit = 1 then - 1 else 1)
      in if e = 255 then (if m = 0 then (if sign_bit = 1 then NegInf else PosInf) else NaN)
         else if e = 0 then Finite (s * real m / 2 ^ 149)
         else if e \<ge> 150 then Finite (s * real (2 ^ 23 + m) * 2 ^ (e - 150))
         else Finite (s * real (2 ^ 23 + m) / 2 ^ (150 - e)))"

text \<open>\<open>struct.unpack('12f', pose_blob)\<close> on a blob of 48 bytes; it cannot fail at that
  length.\<close>

definition unpack_12f :: "byte list \<Rightarrow> float_val list" where
  "unpack_12f blob = map (\<lambda>k. decode_float32 (le_bits (take 4 (drop (4 * k) blob)))) [0..<12]"

text \<open>\<open>extract_pose\<close>: the 3x4 matrix is kept as its 12 entries in row-major order.  A blob
  that is SQL NULL is \<open>None\<close>.\<close>

definition extract_pose :: "byte list option \<Rightarrow> float_val list option" where
  "extract_pose pose_blob =
     (case pose_blob of
        None \<Rightarrow> None
      | Some blob \<Rightarrow>
          if length blob = 0 then None
          else if length blob \<noteq> 48 then None
          else Some (unpack_12f blob))"

text \<open>\<open>matrix[:, 3]\<close>: the last entry of each of the three rows.\<close>

definition get_position_from_matrix :: "float_val list \<Rightarrow> float_val list" where
  "get_position_from_matrix matrix = [matrix ! 3, matrix ! 7, matrix ! 11]"

definition is_finite :: "float_val \<Rightarrow> bool" where
  "is_finite v = (case v of Finite a \<Rightarrow> True | _ \<Rightarrow> False)"

text \<open>One component of \<open>np.allclose(position, [0, 0, 0], atol=1e-6)\<close>, with the default
  \<open>rtol = 1e-5\<close>: \<open>|a - b| <= atol + rtol * |b|\<close> for \<open>b = 0\<close>.  The literals are taken as
  exact.\<close>

definition close_to_zero :: "float_val \<Rightarrow> bool" where
  "close_to_zero v =
     (case v of Finite a \<Rightarrow> \<bar>a - 0\<bar> \<le> 1 / 10 ^ 6 + (1 / 10 ^ 5) * \<bar>0\<bar> | _ \<Rightarrow> False)"

definition is_valid_position :: "float_val list \<Rightarrow> bool" where
  "is_valid_position position =
     (if \<not> list_all is_finite position then False
      else if list_all close_to_zero position then False
      else True)"

definition finite_value :: "float_val \<Rightarrow> real" where
  "finite_value v = (case v of Finite a \<Rightarrow> a | _ \<Rightarrow> 0)"

definition position_vec :: "float_val list \<Rightarrow> vec3" where
  "position_vec position =
     (finite_value (position ! 0), finite_value (position ! 1), finite_value (position ! 2))"

text \<open>The loop over the rows of \<open>SELECT id, pose FROM Node ORDER BY id\<close>; the state is
  \<open>(positions, node_ids)\<close>.\<close>

fun collect_rows ::
  "(int \<times> byte list option) list \<Rightarrow> vec3 list \<times> int list \<Rightarrow> vec3 list \<times> int list" where
  "collect_rows [] st = st"
| "collect_rows ((nid, pose_blob) # rest) (positions, node_ids) =
     (case extract_pose pose_blob of
        None \<Rightarrow> collect_rows rest (positions, node_ids)
      | Some matrix \<Rightarrow>
          if is_valid_position (get_position_from_matrix matrix)
          then collect_rows rest
                 (positions @ [position_vec (get_position_from_matrix matrix)],
                  node_ids @ [nid])
          else collect_rows rest (positions, node_ids))"

definition extract_trajectory_from_db ::
  "(int \<times> byte list option) list \<Rightarrow> error + vec3 list \<times> int list" where
  "extract_trajectory_from_db rows =
     (case collect_rows rows ([], []) of
        (positions, node_ids) \<Rightarrow>
          if length positions = 0 then Inl ValueError else Inr (positions, node_ids))"

text \<open>The filter in the words of the specification, with the finiteness test read as the code
  makes it (on the translation): the blob is present, is 48 bytes long, its three translation
  entries are finite, and they are not all within \<open>1e-6\<close> of zero.\<close>

definition record_survives :: "int \<times> byte list option \<Rightarrow> bool" where
  "record_survives row =
     (case snd row of
        None \<Rightarrow> False
      | Some blob \<Rightarrow>
          length blob = 48 \<and>
          list_all (\<lambda>k. is_finite (unpack_12f blob ! k)) [3, 7, 11] \<and>
          \<not> list_all (\<lambda>k. \<bar>finite_value (unpack_12f blob ! k)\<bar> \<le> 1 / 10 ^ 6) [3, 7, 11])"

definition record_position :: "int \<times> byte list option \<Rightarrow> vec3" where
  "record_position row =
     (case snd row of
        None \<Rightarrow> (0, 0, 0)
      | Some blob \<Rightarrow> (finite_value (unpack_12f blob ! 3), finite_value (unpack_12f blob ! 7),
                     finite_value (unpack_12f blob ! 11)))"

section \<open>Floor separator (vertical_detector.py)\<close>

text \<open>Python's \<open>int\<close> of a float truncates toward zero.\<close>

definition py_int :: "real \<Rightarrow> int" where
  "py_int x = (if 0 \<le> x then \<lfloor>x\<rfloor> else \<lceil>x\<rceil>)"

text \<open>\<open>a.min()\<close> and \<open>a.max()\<close> of a non-empty array.\<close>

definition amin :: "real list \<Rightarrow> real" where
  "amin a = fold min (tl a) (hd a)"

definition amax :: "real list \<Rightarrow> real" where
  "amax a = fold max (tl a) (hd a)"

text \<open>The histogram, its smoothing and the search for peaks are taken in exact arithmetic;
  the arithmetic of the fallback, on which the number of floors depends, is binary64.

  \<open>np.histogram(a, bins=n)\<close>: \<open>n\<close> equal-width bins over \<open>[a.min(), a.max()]\<close>
  (widened by one half on each side when the two coincide), every bin half-open except the last,
  which includes its right edge.  Returns the counts and the \<open>n + 1\<close> edges.\<close>

definition np_histogram :: "real list \<Rightarrow> nat \<Rightarrow> nat list \<times> real list" where
  "np_histogram a bins =
     (let first_edge = (if amin a = amax a then amin a - 1 / 2 else amin a);
          last_edge = (if amin a = amax a then amax a + 1 / 2 else amax a);
          bin_edges = map (\<lambda>k. first_edge + real k * ((last_edge - first_edge) / real bins))
                          [0..<bins + 1]
      in (map (\<lambda>k. length (filter (\<lambda>x. bin_edges ! k \<le> x \<and>
                                        (if k + 1 = bins then x \<le> bin_edges ! (k + 1)
                                         else x < bin_edges ! (k + 1))) a))
              [0..<bins],
          bin_edges))"

text \<open>\<open>scipy.ndimage.gaussian_filter1d(input, sigma)\<close> with its defaults: a kernel of radius
  \<open>int(4 * sigma + 0.5)\<close> with weights \<open>exp(-x^2 / (2 sigma^2))\<close> normalised to sum 1, and the
  input extended by reflection about its two ends (mode \<open>reflect\<close>).\<close>

definition gaussian_kernel1d :: "real \<Rightarrow> nat \<Rightarrow> real list" where
  "gaussian_kernel1d sigma radius =
     (let phi_x = map (\<lambda>k. exp (- (1 / 2) / (sigma * sigma) *
                               (real_of_int (int k - int radius) * real_of_int (int k - int radius))))
                      [0..<2 * radius + 1]
      in map (\<lambda>p. p / sum_list phi_x) phi_x)"

definition reflect_index :: "int \<Rightarrow> nat \<Rightarrow> nat" where
  "reflect_index i n =
     (let m = i mod (2 * int n)
      in if m < int n then nat m else nat (2 * int n - 1 - m))"

definition gaussian_filter1d :: "real list \<Rightarrow> real \<Rightarrow> real list" where
  "gaussian_filter1d input sigma =
     (let radius = nat (py_int (4 * sigma + 1 / 2));
          weights = gaussian_kernel1d sigma radius
      in map (\<lambda>i. sum_list (map (\<lambda>k. weights ! k *
                                      input ! reflect_index (int i + int k - int radius) (length input))
                                [0..<2 * radius + 1]))
             [0..<length input])"

text \<open>\<open>_find_histogram_peaks\<close>.  First the grouping of the significant bins into regions;
  the state is \<open>(current_region, regions)\<close>.\<close>

fun group_regions :: "nat list \<Rightarrow> nat list \<Rightarrow> nat list list \<Rightarrow> nat list list" where
  "group_regions [] current_region regions = regions @ [current_region]"
| "group_regions (b # rest) current_region regions =
     (if int b - int (last current_region) \<le> 2
      then group_regions rest (current_region @ [b]) regions
      else group_regions rest [b] (regions @ [current_region]))"

text \<open>The loop over the regions, collecting \<open>peaks\<close>.  \<open>np.average\<close> with weights is the
  weighted sum over the sum of the weights.\<close>

fun peak_scan :: "real list \<Rightarrow> real list \<Rightarrow> real \<Rightarrow> nat list list \<Rightarrow> real list \<Rightarrow> real list" where
  "peak_scan smoothed_hist bin_edges threshold [] peaks = peaks"
| "peak_scan smoothed_hist bin_edges threshold (region # rest) peaks =
     (let region_z_values = map (\<lambda>i. (bin_edges ! i + bin_edges ! (i + 1)) / 2) region;
          region_counts = map (\<lambda>i. smoothed_hist ! i) region
      in if sum_list region_counts > 0
         then (let peak_z = sum_list (map (\<lambda>(z, c). z * c) (zip region_z_values region_counts))
                            / sum_list region_counts
               in if list_ex (\<lambda>existing_peak. \<bar>peak_z - existing_peak\<bar> < threshold * (7 / 10)) peaks
                  then peak_scan smoothed_hist bin_edges threshold rest peaks
                  else peak_scan smoothed_hist bin_edges threshold rest (peaks @ [peak_z]))
         else peak_scan smoothed_hist bin_edges threshold rest peaks)"

definition find_histogram_peaks :: "real list \<Rightarrow> real list \<Rightarrow> real \<Rightarrow> real \<Rightarrow> real list" where
  "find_histogram_peaks smoothed_hist bin_edges min_count threshold =
     (let significant_bins = filter (\<lambda>i. smoothed_hist ! i \<ge> min_count)
                                    [0..<length smoothed_hist]
      in if length significant_bins = 0 then []
         else peak_scan smoothed_hist bin_edges threshold
                (group_regions (tl significant_bins) [hd significant_bins] []) [])"

text \<open>\<open>_cluster_z_values\<close>, in three parts.  Steps 1 to 3: the peaks found in the smoothed
  histogram of the Z values.\<close>

definition detected_peaks :: "real list \<Rightarrow> real \<Rightarrow> real list" where
  "detected_peaks z_values threshold =
     (let z_range = float64 (amax z_values - amin z_values);
          bin_size = 1 / 2;
          num_bins = nat (max (py_int (float64 (z_range / bin_size))) 20);
          smoothed_hist = gaussian_filter1d (map real (fst (np_histogram z_values num_bins))) (3 / 2);
          min_count = real (length z_values) * (3 / 100)
      in find_histogram_peaks smoothed_hist (snd (np_histogram z_values num_bins)) min_count threshold)"

text \<open>The uniform split used when no peak was found:
  \<open>num_floors = max(1, int(z_range / threshold) + 1)\<close> and the peaks
  \<open>z_min + (i + 0.5) * (z_range / num_floors)\<close>.  With a zero threshold the quotient is infinite
  (or NaN for a zero range) and \<open>int\<close> raises.\<close>

definition fallback_peaks :: "real \<Rightarrow> real \<Rightarrow> real \<Rightarrow> error + real list" where
  "fallback_peaks z_low z_range threshold =
     (if threshold = 0 then Inl (if z_range = 0 then ValueError else OverflowError)
      else (let num_floors = nat (max 1 (py_int (float64 (z_range / threshold)) + 1))
            in Inr (map (\<lambda>i. float64 (z_low + float64 (float64 (real i + 1 / 2)
                                                         * float64 (z_range / real num_floors))))
                        [0..<num_floors])))"

text \<open>The sorted list \<open>peaks\<close> that the levels are assigned from.\<close>

definition floor_peaks :: "real list \<Rightarrow> real \<Rightarrow> error + real list" where
  "floor_peaks z_values threshold =
     (if length (detected_peaks z_values threshold) = 0
      then (case fallback_peaks (amin z_values) (float64 (amax z_values - amin z_values)) threshold of
              Inl e \<Rightarrow> Inl e
            | Inr peaks \<Rightarrow> Inr (sort peaks))
      else Inr (sort (detected_peaks z_values threshold)))"

text \<open>\<open>np.argmin\<close>: the first index of the least element.\<close>

definition np_argmin :: "real list \<Rightarrow> nat" where
  "np_argmin a = (case first_index (\<lambda>x. x = amin a) a of Some i \<Rightarrow> i | None \<Rightarrow> 0)"

text \<open>\<open>.min()\<close> of an empty array raises \<open>ValueError\<close>; \<open>separate_floors\<close> never passes
  one.\<close>

definition cluster_z_values :: "real list \<Rightarrow> real \<Rightarrow> error + nat list" where
  "cluster_z_values z_values threshold =
     (if z_values = [] then Inl ValueError
      else if float64 (amax z_values - amin z_values) < threshold
      then Inr (replicate (length z_values) 0)
      else (case floor_peaks z_values threshold of
              Inl e \<Rightarrow> Inl e
            | Inr peaks \<Rightarrow>
                Inr (map (\<lambda>z. np_argmin (map (\<lambda>p. \<bar>float64 (p - z)\<bar>) peaks)) z_values)))"

section \<open>Auxiliary notions and sample inputs used in the proofs\<close>

text \<open>Loop invariant of the outer scan of \<open>deduplicate_path\<close> at index \<open>i\<close>: indices below
  \<open>i\<close> are visited, a later index is visited exactly when it has been masked out, and every
  kept index below \<open>i\<close> is farther than \<open>r\<close> from every later index that is still kept.\<close>

definition scan_inv :: "vec3 list \<Rightarrow> real \<Rightarrow> nat \<Rightarrow> bool list \<Rightarrow> nat set \<Rightarrow> bool" where
  "scan_inv pts r i keep vis \<longleftrightarrow>
     length keep = length pts \<and>
     (\<forall>j < length pts. j \<in> vis \<longleftrightarrow> (j < i \<or> \<not> keep ! j)) \<and>
     (\<forall>a < i. \<forall>b < length pts. a < b \<and> keep ! a \<and> keep ! b \<longrightarrow> \<not> dist3 (pts ! b) (pts ! a) \<le> r)"

definition final_mask :: "vec3 list \<Rightarrow> real \<Rightarrow> bool list" where
  "final_mask pts r = fst (dedup_scan pts r [0..<length pts] (replicate (length pts) True, {}))"

definition separated :: "real \<Rightarrow> vec3 list \<Rightarrow> bool" where
  "separated r xs = sorted_wrt (\<lambda>p q. \<not> dist3 q p \<le> r) xs"

text \<open>A floor walked along the x axis: out to \<open>x = 4.25\<close>, back to \<open>x = 0.75\<close>, and on to
  \<open>x = 5.125\<close>; then the same floor after one and after two passes of the deduplicator.\<close>

definition floor_walk :: "vec3 list" where
  "floor_walk = [(-20, 0, 0), (-18, 0, 0), (-16, 0, 0), (-14, 0, 0), (0, 0, 0), (2, 0, 0),
                 (4, 0, 0), (17 / 4, 0, 0), (3 / 4, 0, 0), (41 / 8, 0, 0)]"

definition floor_walk_once :: "vec3 list" where
  "floor_walk_once = [(-20, 0, 0), (-18, 0, 0), (-16, 0, 0), (-14, 0, 0), (0, 0, 0), (2, 0, 0),
                      (4, 0, 0), (3 / 4, 0, 0), (41 / 8, 0, 0)]"

definition floor_walk_twice :: "vec3 list" where
  "floor_walk_twice = [(-20, 0, 0), (-18, 0, 0), (-16, 0, 0), (-14, 0, 0), (0, 0, 0), (2, 0, 0),
                       (4, 0, 0), (41 / 8, 0, 0)]"

text \<open>The indices at which the node loop emits a node, given the position of the last
  emitted node; and the nodes built for a list of such indices.\<close>

fun emitted :: "vec3 list \<Rightarrow> nat set \<Rightarrow> real \<Rightarrow> nat list \<Rightarrow> vec3 \<Rightarrow> nat list" where
  "emitted ps J sp [] lp = []"
| "emitted ps J sp (i # rest) lp =
     (if i \<in> J \<or> sp \<le> norm3 (sub3 (ps ! i) lp) then i # emitted ps J sp rest (ps ! i)
      else emitted ps J sp rest lp)"

definition nodes_of :: "vec3 list \<Rightarrow> nat set \<Rightarrow> int option \<Rightarrow> nat \<Rightarrow> nat list \<Rightarrow> path_node list" where
  "nodes_of ps J fl uid E =
     map (\<lambda>(k, i). mk_node k (ps ! i) (if i \<in> J then JUNCTION else WAYPOINT) i fl)
         (zip [uid..<uid + length E] E)"

text \<open>Notions for the rounding analysis: a number that is zero or at least the least normal
  binary64 number; a coordinate difference that is zero or of magnitude between \<open>2^(-500)\<close>
  and \<open>2^500\<close>, so that its square neither underflows nor overflows; a polyline all of whose
  steps are such; the rounded segment lengths of a polyline between two indices; a running
  binary64 sum; and the exact Euclidean length of a polyline between two indices.\<close>

definition normal_or_zero :: "real \<Rightarrow> bool" where
  "normal_or_zero x \<longleftrightarrow> x = 0 \<or> 2 powr (- 1022) \<le> x"

definition in_band :: "real \<Rightarrow> bool" where
  "in_band d \<longleftrightarrow> d = 0 \<or> (1 / 2 ^ 500 \<le> \<bar>d\<bar> \<and> \<bar>d\<bar> \<le> 2 ^ 500)"

definition well_scaled :: "vec3 list \<Rightarrow> bool" where
  "well_scaled ps \<longleftrightarrow>
     list_all (\<lambda>i. case sub3 (ps ! (i + 1)) (ps ! i) of
                      (dx, dy, dz) \<Rightarrow> in_band dx \<and> in_band dy \<and> in_band dz)
              [0..<length ps - 1]"

definition segment_norms :: "vec3 list \<Rightarrow> nat \<Rightarrow> nat \<Rightarrow> real list" where
  "segment_norms ps a b = map (\<lambda>i. norm_f64 (sub_f64 (ps ! (i + 1)) (ps ! i))) [a..<b]"

definition running_sum :: "real list \<Rightarrow> real \<Rightarrow> real" where
  "running_sum ts acc = fold (\<lambda>t total. float64 (total + t)) ts acc"

definition path_length :: "vec3 list \<Rightarrow> nat \<Rightarrow> nat \<Rightarrow> real" where
  "path_length ps a b = sum_list (map (\<lambda>i. norm3 (sub3 (ps ! (i + 1)) (ps ! i))) [a..<b])"

definition edge_core :: "path_edge \<Rightarrow> nat \<times> nat \<times> real \<times> edge_kind" where
  "edge_core e = (from_node_id e, to_node_id e, distance e, edge_type e)"

text \<open>Sample polylines: an L-shaped corridor sampled every metre, a short bend, and a floor
  whose flattened polyline is two points 4 m apart.\<close>

definition corner_polyline :: "vec3 list" where
  "corner_polyline = [(0, 0, 0), (1, 0, 0), (2, 0, 0), (3, 0, 0), (3, 1, 0), (3, 2, 0), (3, 3, 0)]"

definition bend_polyline :: "vec3 list" where
  "bend_polyline = [(0, 0, 0), (3 / 5, 0, 0), (3 / 5, 4 / 5, 0)]"

definition bend_nodes :: "path_node list" where
  "bend_nodes = [mk_node 0 (0, 0, 0) ENDPOINT 0 (Some 1), mk_node 1 (3 / 5, 4 / 5, 0) ENDPOINT 2 (Some 1)]"

definition bend_edge :: path_edge where
  "bend_edge = \<lparr>edge_id = 2, from_node_id = 0, to_node_id = 1, distance = 7 / 5,
                is_bidirectional = True, edge_type = HORIZONTAL\<rparr>"

definition far_apart_floor :: "(int \<times> vec3 list) list" where
  "far_apart_floor = [(1, [(0, 0, 0), (4, 0, 0)])]"

text \<open>Sample trajectories for the vertical detector: two climbs separated by a downward jump,
  and an elevator ride between two floors together with the data of these floors.\<close>

definition two_flights :: "vec3 list" where
  "two_flights = map (\<lambda>z. (0, 0, z))
     [0, 1/4, 2/4, 3/4, 1, 5/4, 6/4, 7/4, 2, 9/4, 10/4,
      10/4, 10/4, 10/4, 10/4, 10/4,
      -5, -19/4, -18/4, -17/4, -4, -15/4, -14/4, -13/4, -3, -11/4, -10/4]"

definition lift_ride :: "vec3 list" where
  "lift_ride = map (\<lambda>z. (0, 0, z)) [0, 3/10, 6/10, 9/10, 12/10, 15/10, 18/10, 21/10, 24/10, 27/10, 3]"

definition flat_floor :: "real \<Rightarrow> floor_data" where
  "flat_floor z = \<lparr>floor_positions = map (\<lambda>k. (real k, 0, z)) [0..<10],
                   floor_node_ids = map int [0..<10], floor_indices = [0..<10],
                   z_mean = z, z_min = z, z_max = z, point_count = 10\<rparr>"

definition two_floor_data :: "(int \<times> floor_data) list" where
  "two_floor_data = [(1, flat_floor 0), (2, flat_floor 3)]"

definition two_floors :: "(int \<times> vec3 list) list" where
  "two_floors = [(1, [(0, 0, 0), (1, 0, 0), (2, 0, 0)]), (2, [(0, 0, 3), (1, 0, 3), (2, 0, 3)])]"

definition lift_passages :: "passage list" where
  "lift_passages = assign_floors_to_stairs (fst (detect_stairs_first lift_ride (1 / 20) 10 (3 / 2) 5))
                     two_floor_data"

definition passage_summary :: "passage \<Rightarrow> nat \<times> nat \<times> direction \<times> real \<times> real \<times> real" where
  "passage_summary p = (start_idx p, end_idx p, direction p, z_start p, z_end p, z_displacement p)"


text \<open>Sample pose blobs: a pose whose first rotation entry is a NaN pattern and whose
  translation is \<open>(1, 2, 3)\<close>; the all-zero pose; a pose with an infinite \<open>tx\<close>.\<close>

definition nan_rotation_blob :: "byte list" where
  "nan_rotation_blob =
     [0x00, 0x00, 0xC0, 0x7F,  0, 0, 0, 0,  0, 0, 0, 0,  0x00, 0x00, 0x80, 0x3F,
      0, 0, 0, 0,  0, 0, 0, 0,  0, 0, 0, 0,  0x00, 0x00, 0x00, 0x40,
      0, 0, 0, 0,  0, 0, 0, 0,  0, 0, 0, 0,  0x00, 0x00, 0x40, 0x40]"

definition origin_blob :: "byte list" where
  "origin_blob =
     [0, 0, 0, 0,  0, 0, 0, 0,  0, 0, 0, 0,  0, 0, 0, 0,
      0, 0, 0, 0,  0, 0, 0, 0,  0, 0, 0, 0,  0, 0, 0, 0,
      0, 0, 0, 0,  0, 0, 0, 0,  0, 0, 0, 0,  0, 0, 0, 0]"

definition inf_translation_blob :: "byte list" where
  "inf_translation_blob =
     [0x00, 0x00, 0x80, 0x3F,  0, 0, 0, 0,  0, 0, 0, 0,  0x00, 0x00, 0x80, 0x7F,
      0, 0, 0, 0,  0x00, 0x00, 0x80, 0x3F,  0, 0, 0, 0,  0x00, 0x00, 0x00, 0x40,
      0, 0, 0, 0,  0, 0, 0, 0,  0x00, 0x00, 0x80, 0x3F,  0x00, 0x00, 0x40, 0x40]"

definition sample_rows :: "(int \<times> byte list option) list" where
  "sample_rows =
     [(1, None), (2, Some [0x00, 0x00, 0x80, 0x3F]), (3, Some origin_blob),
      (4, Some nan_rotation_blob), (5, Some inf_translation_blob)]"

text \<open>Sample polylines for the edge distances: three points on a diagonal, and a corner with
  legs \<open>3/4\<close> and \<open>1\<close>; with the nodes and the edge that the graph builder makes of
  them.\<close>

definition diagonal_polyline :: "vec3 list" where
  "diagonal_polyline = [(0, 0, 0), (1 / 8, 1 / 8, 0), (1 / 2, 1 / 2, 0)]"

definition cornered_polyline :: "vec3 list" where
  "cornered_polyline = [(0, 0, 0), (3 / 4, 0, 0), (3 / 4, 1, 0)]"

definition diagonal_nodes :: "path_node list" where
  "diagonal_nodes = [mk_node 0 (0, 0, 0) ENDPOINT 0 (Some 1), mk_node 1 (1 / 2, 1 / 2, 0) ENDPOINT 2 (Some 1)]"

definition diagonal_edge :: path_edge where
  "diagonal_edge = \<lparr>edge_id = 2, from_node_id = 0, to_node_id = 1,
                    distance = 1592262918131443 / 2251799813685248,
                    is_bidirectional = True, edge_type = HORIZONTAL\<rparr>"

definition cornered_nodes :: "path_node list" where
  "cornered_nodes = [mk_node 0 (0, 0, 0) ENDPOINT 0 (Some 1), mk_node 1 (3 / 4, 1, 0) ENDPOINT 2 (Some 1)]"

definition cornered_edge :: path_edge where
  "cornered_edge = \<lparr>edge_id = 2, from_node_id = 0, to_node_id = 1, distance = 7 / 4,
                    is_bidirectional = True, edge_type = HORIZONTAL\<rparr>"

text \<open>Notions for the result document: the rounded segment lengths of all floors in the order
  in which \<open>total_distance\<close> adds them; the number of segments of all floors; the number of
  floors whose polyline has at least two points (each of them has one more node than it has
  pairs of consecutive nodes); and the number of HORIZONTAL edges of a graph.\<close>

definition all_segment_norms :: "(int \<times> vec3 list) list \<Rightarrow> real list" where
  "all_segment_norms floors =
     concat (map (\<lambda>(level, positions). segment_norms positions 0 (length positions - 1)) floors)"

definition segment_total :: "(int \<times> vec3 list) list \<Rightarrow> nat" where
  "segment_total floors = sum_list (map (\<lambda>(level, positions). length positions - 1) floors)"

definition walkable_floors :: "(int \<times> vec3 list) list \<Rightarrow> nat" where
  "walkable_floors floors = length (filter (\<lambda>(level, positions). 2 \<le> length positions) floors)"

definition horizontal_count :: "path_edge list \<Rightarrow> nat" where
  "horizontal_count edges = length (filter (\<lambda>e. edge_type e = HORIZONTAL) edges)"

text \<open>Sample heights for the floor separator: 36 heights, one in each half-metre bin of the
  range \<open>[0, 18]\<close>.\<close>

definition even_spread :: "real list" where
  "even_spread = map (\<lambda>k. real k / 2) [0..<35] @ [18]"

section \<open>Properties\<close>

section \<open>Evaluation lemmas for distances\<close>

lemma norm3_nonneg: "0 \<le> norm3 v"
  by (cases v) (simp add: norm3_def sq3_def)

lemma sq3_nonneg: "0 \<le> sq3 v"
  by (cases v) (simp add: sq3_def)

lemma norm3_less_iff: "0 \<le> t \<Longrightarrow> norm3 v < t \<longleftrightarrow> sq3 v < t * t"
proof -
  assume t: "0 \<le> t"
  have "sqrt (sq3 v) < t \<longleftrightarrow> sqrt (sq3 v) < sqrt (t * t)"
    using t by simp
  also have "\<dots> \<longleftrightarrow> sq3 v < t * t"
    by (rule real_sqrt_less_iff)
  finally show ?thesis by (simp add: norm3_def)
qed

lemma norm3_le_iff: "0 \<le> t \<Longrightarrow> norm3 v \<le> t \<longleftrightarrow> sq3 v \<le> t * t"
proof -
  assume t: "0 \<le> t"
  have "sqrt (sq3 v) \<le> t \<longleftrightarrow> sqrt (sq3 v) \<le> sqrt (t * t)"
    using t by simp
  also have "\<dots> \<longleftrightarrow> sq3 v \<le> t * t"
    by (rule real_sqrt_le_iff)
  finally show ?thesis by (simp add: norm3_def)
qed

lemma less_norm3_iff: "0 \<le> t \<Longrightarrow> t < norm3 v \<longleftrightarrow> t * t < sq3 v"
  using norm3_le_iff [of t v] by auto

lemma le_norm3_iff: "0 \<le> t \<Longrightarrow> t \<le> norm3 v \<longleftrightarrow> t * t \<le> sq3 v"
  using norm3_less_iff [of t v] by auto

lemma norm3_mult_le_iff: "0 < c \<Longrightarrow> 0 \<le> d \<Longrightarrow> norm3 v * c \<le> d \<longleftrightarrow> sq3 v * (c * c) \<le> d * d"
proof -
  assume c: "0 < c" and d: "0 \<le> d"
  have "norm3 v * c \<le> d \<longleftrightarrow> norm3 v \<le> d / c" using c by (simp add: field_simps)
  also have "\<dots> \<longleftrightarrow> sq3 v \<le> (d / c) * (d / c)" using c d by (simp add: norm3_le_iff)
  also have "\<dots> \<longleftrightarrow> sq3 v * (c * c) \<le> d * d" using c by (simp add: field_simps)
  finally show ?thesis .
qed

lemma norm3_mult_less_iff: "0 < c \<Longrightarrow> 0 \<le> d \<Longrightarrow> norm3 v * c < d \<longleftrightarrow> sq3 v * (c * c) < d * d"
proof -
  assume c: "0 < c" and d: "0 \<le> d"
  have "norm3 v * c < d \<longleftrightarrow> norm3 v < d / c" using c by (simp add: field_simps)
  also have "\<dots> \<longleftrightarrow> sq3 v < (d / c) * (d / c)" using c d by (simp add: norm3_less_iff)
  also have "\<dots> \<longleftrightarrow> sq3 v * (c * c) < d * d" using c by (simp add: field_simps)
  finally show ?thesis .
qed

lemma less_norm3_mult_iff: "0 < c \<Longrightarrow> 0 \<le> d \<Longrightarrow> d < norm3 v * c \<longleftrightarrow> d * d < sq3 v * (c * c)"
  using norm3_mult_le_iff [of c d v] by auto

lemma le_norm3_mult_iff: "0 < c \<Longrightarrow> 0 \<le> d \<Longrightarrow> d \<le> norm3 v * c \<longleftrightarrow> d * d \<le> sq3 v * (c * c)"
  using norm3_mult_less_iff [of c d v] by auto

lemmas ev = find_revisit_point_def find_divergence_point_def norm3_less_iff less_norm3_iff norm3_le_iff le_norm3_iff
  norm3_mult_le_iff norm3_mult_less_iff less_norm3_mult_iff le_norm3_mult_iff sq3_def sub3_def dist3_def

text \<open>Unfolding rules for the merging loop, guarded by the loop test so that evaluation on a
  concrete input stops.\<close>

lemma merge_loop_stop: "length ps \<le> i \<Longrightarrow> merge_loop ps t res i = Some res"
  by (subst merge_loop.simps) simp

lemma merge_loop_step:
  "i < length ps \<Longrightarrow> merge_loop ps t res i =
     (case find_revisit_point res (ps ! i) t of
           Some r \<Rightarrow>
             (if r + 2 < length res then
                (case find_divergence_point (drop i ps) (drop r res) t of
                   Some d \<Rightarrow> merge_loop ps t res (i + d)
                 | None \<Rightarrow> merge_loop ps t (res @ [ps ! i]) (i + 1))
              else merge_loop ps t (res @ [ps ! i]) (i + 1))
         | None \<Rightarrow> merge_loop ps t (res @ [ps ! i]) (i + 1))"
  by (subst merge_loop.simps) simp

subsection \<open>Stage 1 terminates\<close>

lemma first_index_Some_iff:
  "first_index P xs = Some n \<Longrightarrow> n < length xs \<and> P (xs ! n) \<and> (\<forall>k<n. \<not> P (xs ! k))"
proof (induction xs arbitrary: n)
  case Nil then show ?case by simp
next
  case (Cons x xs)
  show ?case
  proof (cases "P x")
    case True with Cons.prems show ?thesis by simp
  next
    case False
    with Cons.prems obtain m where m: "first_index P xs = Some m" "n = Suc m" by auto
    from Cons.IH[OF m(1)] False m(2) show ?thesis
      by (auto simp: nth_Cons split: nat.splits)
  qed
qed

lemma min_list_le_member: "x \<in> set xs \<Longrightarrow> min_list xs \<le> (x::real)"
proof -
  assume x: "x \<in> set xs"
  then have "xs \<noteq> []" by auto
  then have "min_list xs = Min (set xs)" by (rule min_list_Min)
  with x show ?thesis by simp
qed

lemma divergence_not_at_revisit:
  assumes i: "i < length positions"
      and r: "find_revisit_point result (positions ! i) threshold = Some r"
      and d: "find_divergence_point (drop i positions) (drop r result) threshold = Some d"
  shows "1 \<le> d"
proof (rule ccontr)
  assume "\<not> 1 \<le> d"
  then have d0: "d = 0" by simp
  from first_index_Some_iff[OF r[unfolded find_revisit_point_def]]
  have rl: "r < length (butlast result)"
    and near: "norm3 (sub3 (butlast result ! r) (positions ! i)) < threshold" by auto
  from rl have rl': "r < length result" by simp
  have br: "butlast result ! r = result ! r" using rl by (simp add: nth_butlast)
  from first_index_Some_iff[OF d[unfolded find_divergence_point_def]] d0 i
  have far: "threshold < min_list (map (\<lambda>b. norm3 (sub3 b (positions ! i))) (drop r result))"
    by (simp add: hd_drop_conv_nth)
  have "result ! r \<in> set (drop r result)"
    using rl' by (metis Cons_nth_drop_Suc list.set_intros(1))
  then have "norm3 (sub3 (result ! r) (positions ! i)) \<in> set (map (\<lambda>b. norm3 (sub3 b (positions ! i))) (drop r result))"
    by auto
  from min_list_le_member[OF this] far near br show False by simp
qed

lemma merge_loop_terminates:
  "\<exists>out. merge_loop positions threshold result i = Some out"
proof (induction "length positions - i" arbitrary: i result rule: less_induct)
  case less
  show ?case
  proof (cases "i < length positions")
    case False
    then show ?thesis by (subst merge_loop.simps) simp
  next
    case True
    have step: "\<exists>out. merge_loop positions threshold res (i + 1) = Some out" for res
      using less[of "i + 1" res] True by simp
    show ?thesis
    proof (cases "find_revisit_point result (positions ! i) threshold")
      case None
      with True step show ?thesis by (subst merge_loop.simps) simp
    next
      case (Some r)
      show ?thesis
      proof (cases "r + 2 < length result")
        case False
        with True Some step show ?thesis by (subst merge_loop.simps) simp
      next
        case r2: True
        show ?thesis
        proof (cases "find_divergence_point (drop i positions) (drop r result) threshold")
          case None
          with True Some r2 step show ?thesis by (subst merge_loop.simps) simp
        next
          case (Some d)
          from divergence_not_at_revisit[OF True \<open>find_revisit_point result (positions ! i) threshold = Some r\<close> Some]
          have "1 \<le> d" .
          then have "\<exists>out. merge_loop positions threshold result (i + d) = Some out"
            using less[of "i + d" result] True by simp
          with True \<open>find_revisit_point result (positions ! i) threshold = Some r\<close> r2 Some
          show ?thesis by (subst merge_loop.simps) simp
        qed
      qed
    qed
  qed
qed

text \<open>
  C9.  The back-and-forth merger returns on every input array and threshold; and whenever the
  loop body finds a revisit for the current point and then a divergence index, that index is at
  least 1, so every iteration moves the scan index forward (by 1 when the point is appended, by
  the divergence index when a stretch is skipped).
\<close>

theorem merge_overlapping_segments_terminates:
  "(\<exists>out. merge_overlapping_segments positions threshold = Some out) \<and>
   (\<forall>result i r d.
      i < length positions \<longrightarrow>
      find_revisit_point result (positions ! i) threshold = Some r \<longrightarrow>
      find_divergence_point (drop i positions) (drop r result) threshold = Some d \<longrightarrow>
      1 \<le> d)"
proof (intro conjI allI impI)
  show "\<exists>out. merge_overlapping_segments positions threshold = Some out"
    unfolding merge_overlapping_segments_def
    using merge_loop_terminates [of positions threshold "[positions ! 0]" 1] by simp
next
  fix result i r d
  assume "i < length positions"
    and "find_revisit_point result (positions ! i) threshold = Some r"
    and "find_divergence_point (drop i positions) (drop r result) threshold = Some d"
  then show "1 \<le> d" by (rule divergence_not_at_revisit)
qed

theorem merge_overlapping_segments_terminates_witness:
  "(\<exists>out. merge_overlapping_segments floor_walk_once 1 = Some out) \<and>
   (7::nat) < length floor_walk_once \<and>
   find_revisit_point (take 7 floor_walk_once) (floor_walk_once ! 7) 1 = Some 4 \<and>
   find_divergence_point (drop 7 floor_walk_once) (drop 4 (take 7 floor_walk_once)) 1 = Some 1 \<and>
   (1::nat) \<le> 1"
proof -
  have a: "(7::nat) < length floor_walk_once"
    by (simp add: floor_walk_once_def)
  have b: "find_revisit_point (take 7 floor_walk_once) (floor_walk_once ! 7) 1 = Some 4"
    by (simp add: floor_walk_once_def ev)
  have c: "find_divergence_point (drop 7 floor_walk_once) (drop 4 (take 7 floor_walk_once)) 1 = Some 1"
    by (simp add: floor_walk_once_def ev)
  from merge_overlapping_segments_terminates [of floor_walk_once 1] a b c
  show ?thesis by blast
qed

subsection \<open>Stage 2 is idempotent, the two stages together are not\<close>

lemma sq3_sub3_sym: "sq3 (sub3 a b) = sq3 (sub3 b a)"
  by (cases a, cases b) (simp add: sq3_def sub3_def algebra_simps)

lemma dist3_sym: "dist3 a b = dist3 b a"
  by (simp add: dist3_def norm3_def sq3_sub3_sym)

lemma claim_neighbors_length:
  "length (fst (claim_neighbors i js (keep, vis))) = length keep"
  by (induction js arbitrary: keep vis) simp_all

lemma claim_neighbors_vis:
  "snd (claim_neighbors i js (keep, vis)) = vis \<union> (set js - {i})"
  by (induction js arbitrary: keep vis) auto

lemma claim_neighbors_nth:
  "k < length keep \<Longrightarrow>
   fst (claim_neighbors i js (keep, vis)) ! k =
     (keep ! k \<and> \<not> (k \<in> set js \<and> k \<noteq> i \<and> k \<notin> vis))"
proof (induction js arbitrary: keep vis)
  case Nil
  then show ?case by simp
next
  case (Cons j js)
  show ?case
  proof (cases "j \<noteq> i \<and> j \<notin> vis")
    case True
    have "fst (claim_neighbors i (j # js) (keep, vis)) ! k =
          fst (claim_neighbors i js (keep[j := False], insert j vis)) ! k"
      using True by simp
    also have "\<dots> = (keep[j := False] ! k \<and> \<not> (k \<in> set js \<and> k \<noteq> i \<and> k \<notin> insert j vis))"
      using Cons.IH [of "keep[j := False]" "insert j vis"] Cons.prems by simp
    also have "\<dots> = (keep ! k \<and> \<not> (k \<in> set (j # js) \<and> k \<noteq> i \<and> k \<notin> vis))"
      using True Cons.prems by (cases "k = j") simp_all
    finally show ?thesis .
  next
    case False
    have "fst (claim_neighbors i (j # js) (keep, vis)) ! k =
          fst (claim_neighbors i js (keep, vis)) ! k"
      using False by auto
    also have "\<dots> = (keep ! k \<and> \<not> (k \<in> set js \<and> k \<noteq> i \<and> k \<notin> vis))"
      using Cons.IH [of keep vis] Cons.prems by simp
    also have "\<dots> = (keep ! k \<and> \<not> (k \<in> set (j # js) \<and> k \<noteq> i \<and> k \<notin> vis))"
      using False by auto
    finally show ?thesis .
  qed
qed

lemma claim_neighbors_spec:
  assumes "claim_neighbors i js (keep, vis) = (keep', vis')"
  shows "length keep' = length keep" and "vis' = vis \<union> (set js - {i})"
    and "\<And>k. k < length keep \<Longrightarrow> keep' ! k = (keep ! k \<and> \<not> (k \<in> set js \<and> k \<noteq> i \<and> k \<notin> vis))"
  using claim_neighbors_length [of i js keep vis] claim_neighbors_vis [of i js keep vis]
        claim_neighbors_nth [of _ keep i js vis] assms
  by simp_all

lemma set_query_ball_point:
  "set (query_ball_point pts x r) = {j. j < length pts \<and> dist3 (pts ! j) x \<le> r}"
  by (auto simp: query_ball_point_def)

lemma scan_inv_step:
  assumes inv: "scan_inv pts r i keep vis" and i: "i < length pts"
  shows "if i \<in> vis then scan_inv pts r (Suc i) keep vis
         else (case claim_neighbors i (query_ball_point pts (pts ! i) r) (keep, vis) of
                 (keep', vis') \<Rightarrow> scan_inv pts r (Suc i) keep' (insert i vis'))"
proof (cases "i \<in> vis")
  case True
  with inv i have "\<not> keep ! i" by (auto simp: scan_inv_def)
  with inv True i show ?thesis
    by (auto simp: scan_inv_def less_Suc_eq)
next
  case False
  obtain keep' vis' where c: "claim_neighbors i (query_ball_point pts (pts ! i) r) (keep, vis) = (keep', vis')"
    by (cases "claim_neighbors i (query_ball_point pts (pts ! i) r) (keep, vis)") auto
  note s = claim_neighbors_spec [OF c, unfolded set_query_ball_point]
  have len: "length keep = length pts" using inv by (simp add: scan_inv_def)
  have I2: "\<And>j. j < length pts \<Longrightarrow> j \<in> vis \<longleftrightarrow> (j < i \<or> \<not> keep ! j)"
    using inv by (simp add: scan_inv_def)
  have I3: "\<And>a b. a < i \<Longrightarrow> b < length pts \<Longrightarrow> a < b \<Longrightarrow> keep ! a \<Longrightarrow> keep ! b \<Longrightarrow> \<not> dist3 (pts ! b) (pts ! a) \<le> r"
    using inv by (simp add: scan_inv_def)
  have k': "\<And>k. k < length pts \<Longrightarrow> keep' ! k = (keep ! k \<and> \<not> (dist3 (pts ! k) (pts ! i) \<le> r \<and> k \<noteq> i \<and> k \<notin> vis))"
    using s(3) len by simp
  have v': "vis' = vis \<union> ({j. j < length pts \<and> dist3 (pts ! j) (pts ! i) \<le> r} - {i})"
    using s(2) by simp
  have "scan_inv pts r (Suc i) keep' (insert i vis')"
    unfolding scan_inv_def
  proof (intro conjI allI impI)
    show "length keep' = length pts" using s(1) len by simp
  next
    fix j assume j: "j < length pts"
    show "(j \<in> insert i vis') = (j < Suc i \<or> \<not> keep' ! j)"
      using k' [OF j] I2 [OF j] j False unfolding v' by (auto simp: less_Suc_eq)
  next
    fix a b assume a: "a < Suc i" and b: "b < length pts" and h: "a < b \<and> keep' ! a \<and> keep' ! b"
    have al: "a < length pts" using a i by simp
    show "\<not> dist3 (pts ! b) (pts ! a) \<le> r"
    proof (cases "a = i")
      case True
      from h k' [OF b] have kb: "keep ! b" and nb: "\<not> (dist3 (pts ! b) (pts ! i) \<le> r \<and> b \<noteq> i \<and> b \<notin> vis)" by auto
      from I2 [OF b] kb h True have "b \<notin> vis" by auto
      with nb h True show ?thesis by auto
    next
      case F: False
      with a have "a < i" by simp
      moreover from h k' [OF al] k' [OF b] have "keep ! a" "keep ! b" by auto
      ultimately show ?thesis using I3 b h by blast
    qed
  qed
  with False c show ?thesis by simp
qed

lemma dedup_scan_inv:
  "scan_inv pts r i keep vis \<Longrightarrow> i \<le> length pts \<Longrightarrow>
   scan_inv pts r (length pts) (fst (dedup_scan pts r [i..<length pts] (keep, vis)))
                                (snd (dedup_scan pts r [i..<length pts] (keep, vis)))"
proof (induction "length pts - i" arbitrary: i keep vis)
  case 0
  then show ?case by simp
next
  case (Suc n)
  then have i: "i < length pts" by simp
  have up: "[i..<length pts] = i # [Suc i..<length pts]" using i by (simp add: upt_conv_Cons)
  have n: "n = length pts - Suc i" using Suc.hyps(2) by simp
  note step = scan_inv_step [OF Suc.prems(1) i]
  show ?case
  proof (cases "i \<in> vis")
    case True
    with step have "scan_inv pts r (Suc i) keep vis" by simp
    from Suc.hyps(1) [OF n this] i True show ?thesis unfolding up by simp
  next
    case False
    obtain keep' vis' where c: "claim_neighbors i (query_ball_point pts (pts ! i) r) (keep, vis) = (keep', vis')"
      by (cases "claim_neighbors i (query_ball_point pts (pts ! i) r) (keep, vis)") auto
    with step False have "scan_inv pts r (Suc i) keep' (insert i vis')" by simp
    from Suc.hyps(1) [OF n this] i False c show ?thesis unfolding up by simp
  qed
qed

lemma scan_inv_init: "scan_inv pts r 0 (replicate (length pts) True) {}"
  by (simp add: scan_inv_def)

lemma final_mask_props:
  "length (final_mask pts r) = length pts \<and>
   (\<forall>a b. a < b \<and> b < length pts \<and> final_mask pts r ! a \<and> final_mask pts r ! b
           \<longrightarrow> \<not> dist3 (pts ! b) (pts ! a) \<le> r)"
  using dedup_scan_inv [OF scan_inv_init, of pts r] by (auto simp: scan_inv_def final_mask_def)

lemma masked_snoc:
  "length m = length xs \<Longrightarrow> masked (xs @ [x]) (m @ [b]) = masked xs m @ (if b then [x] else [])"
  by (simp add: masked_def)

lemma filter_mask_snoc:
  assumes "length m = n"
  shows "filter (\<lambda>i. (m @ [b]) ! i) [0..<Suc n] = filter (\<lambda>i. m ! i) [0..<n] @ (if b then [n] else [])"
proof -
  have "filter (\<lambda>i. (m @ [b]) ! i) [0..<n] = filter (\<lambda>i. m ! i) [0..<n]"
    using assms by (intro filter_cong) (auto simp: nth_append)
  moreover have "(m @ [b]) ! n = b" using assms by (simp add: nth_append)
  ultimately show ?thesis by simp
qed

lemma map_nth_snoc:
  assumes "\<forall>i \<in> set js. i < length xs"
  shows "map (\<lambda>i. (xs @ [x]) ! i) js = map (\<lambda>i. xs ! i) js"
  using assms by (intro map_cong) (auto simp: nth_append)

lemma masked_conv:
  "length m = length xs \<Longrightarrow> masked xs m = map (\<lambda>i. xs ! i) (filter (\<lambda>i. m ! i) [0..<length xs])"
proof (induction xs arbitrary: m rule: rev_induct)
  case Nil
  then show ?case by (simp add: masked_def)
next
  case (snoc x xs)
  then obtain m' b where m: "m = m' @ [b]" "length m' = length xs"
    by (cases m rule: rev_cases) auto
  have "map (\<lambda>i. (xs @ [x]) ! i) (filter (\<lambda>i. (m' @ [b]) ! i) [0..<Suc (length xs)])
        = map (\<lambda>i. (xs @ [x]) ! i) (filter (\<lambda>i. m' ! i) [0..<length xs]) @ (if b then [x] else [])"
    unfolding filter_mask_snoc [OF m(2)] by simp
  also have "\<dots> = map (\<lambda>i. xs ! i) (filter (\<lambda>i. m' ! i) [0..<length xs]) @ (if b then [x] else [])"
    using map_nth_snoc [of "filter (\<lambda>i. m' ! i) [0..<length xs]" xs x] by simp
  also have "\<dots> = masked (xs @ [x]) (m' @ [b])"
    unfolding masked_snoc [OF m(2)] snoc.IH [OF m(2)] ..
  finally show ?case using m(1) by simp
qed

lemma sorted_wrt_filter_upt:
  "(\<And>a b. a < b \<Longrightarrow> b < n \<Longrightarrow> g a \<Longrightarrow> g b \<Longrightarrow> Q a b) \<Longrightarrow> sorted_wrt Q (filter g [0..<n])"
proof (induction n)
  case 0
  then show ?case by simp
next
  case (Suc n)
  have "sorted_wrt Q (filter g [0..<n])" using Suc by simp
  then show ?case using Suc.prems by (auto simp: sorted_wrt_append)
qed

lemma dedup_output_separated: "separated r (masked pts (final_mask pts r))"
proof -
  have len: "length (final_mask pts r) = length pts" using final_mask_props by simp
  show ?thesis
    unfolding separated_def masked_conv [OF len] sorted_wrt_map
    by (rule sorted_wrt_filter_upt) (use final_mask_props [of pts r] in blast)
qed

lemma claim_neighbors_self: "set js \<subseteq> {i} \<Longrightarrow> claim_neighbors i js (keep, vis) = (keep, vis)"
  by (induction js) auto

lemma dedup_scan_separated_keep:
  assumes "\<forall>i \<in> set is. set (query_ball_point pts (pts ! i) r) \<subseteq> {i}"
  shows "fst (dedup_scan pts r is (keep, vis)) = keep"
  using assms
proof (induction "is" arbitrary: vis)
  case Nil
  then show ?case by simp
next
  case (Cons i rest)
  then show ?case by (simp add: claim_neighbors_self)
qed

lemma separated_final_mask:
  assumes "separated r xs"
  shows "final_mask xs r = replicate (length xs) True"
proof -
  have sep: "\<And>a b. a < b \<Longrightarrow> b < length xs \<Longrightarrow> \<not> dist3 (xs ! b) (xs ! a) \<le> r"
    using assms by (simp add: separated_def sorted_wrt_iff_nth_less)
  have "\<forall>i \<in> set [0..<length xs]. set (query_ball_point xs (xs ! i) r) \<subseteq> {i}"
  proof (clarsimp simp: set_query_ball_point)
    fix i j assume i: "i < length xs" and j: "j < length xs" and d: "dist3 (xs ! j) (xs ! i) \<le> r"
    show "j = i"
    proof (rule ccontr)
      assume "j \<noteq> i"
      then consider "i < j" | "j < i" by linarith
      then show False
      proof cases
        case 1 with sep [OF 1 j] d show False by simp
      next
        case 2 with sep [OF 2 i] d show False by (simp add: dist3_sym)
      qed
    qed
  qed
  from dedup_scan_separated_keep [OF this] show ?thesis by (simp add: final_mask_def)
qed

lemma masked_all: "masked xs (replicate (length xs) True) = xs"
  by (induction xs) (simp_all add: masked_def)

text \<open>
  C5 (as amended).  Spatial deduplication, the second stage of the deduplicator, is idempotent
  for every point array and every threshold: a second pass over its output removes nothing.
\<close>

theorem deduplicate_path_idem: "deduplicate_path (deduplicate_path ps r) r = deduplicate_path ps r"
proof -
  let ?u = "masked ps (final_mask ps r)"
  have d: "deduplicate_path ps r = (if length ps < 2 then ps else if length ?u < 2 then ps else ?u)"
    by (simp add: deduplicate_path_def final_mask_def Let_def)
  have dd: "\<And>xs. deduplicate_path xs r = (if length xs < 2 then xs else if length (masked xs (final_mask xs r)) < 2 then xs else masked xs (final_mask xs r))"
    by (simp add: deduplicate_path_def final_mask_def Let_def)
  show ?thesis
  proof (cases "length ps < 2 \<or> length ?u < 2")
    case True
    then have "deduplicate_path ps r = ps" using d by auto
    then show ?thesis by simp
  next
    case False
    then have e: "deduplicate_path ps r = ?u" using d by auto
    have "final_mask ?u r = replicate (length ?u) True"
      using separated_final_mask [OF dedup_output_separated] .
    then have "masked ?u (final_mask ?u r) = ?u" by (simp add: masked_all)
    then have "deduplicate_path ?u r = ?u" using False by (simp add: dd)
    with e show ?thesis by simp
  qed
qed

lemma floor_walk_merge: "merge_overlapping_segments floor_walk 1 = Some floor_walk"
  unfolding floor_walk_def merge_overlapping_segments_def
  by (simp add: merge_loop_stop merge_loop_step ev)

lemma floor_walk_dedup: "deduplicate_path floor_walk (1 / 2) = floor_walk_once"
  unfolding floor_walk_def floor_walk_once_def deduplicate_path_def
  by (simp add: query_ball_point_def masked_def ev upt_conv_Cons)

lemma floor_walk_once_merge: "merge_overlapping_segments floor_walk_once 1 = Some floor_walk_twice"
  unfolding floor_walk_once_def floor_walk_twice_def merge_overlapping_segments_def
  by (simp add: merge_loop_stop merge_loop_step ev)

lemma floor_walk_twice_dedup: "deduplicate_path floor_walk_twice (1 / 2) = floor_walk_twice"
  unfolding floor_walk_twice_def deduplicate_path_def
  by (simp add: query_ball_point_def masked_def ev upt_conv_Cons)

theorem deduplicate_path_idem_witness:
  "deduplicate_path (deduplicate_path floor_walk (1 / 2)) (1 / 2) = floor_walk_once"
  using deduplicate_path_idem [of floor_walk "1 / 2"] by (simp only: floor_walk_dedup)

text \<open>
  C5 (as stated) fails.  On the ten-point floor \<open>floor_walk\<close> the first pass of the two-stage
  deduplicator yields nine points; the second pass over these nine points yields eight.
\<close>

theorem two_stage_dedup_not_idempotent:
  "two_stage_dedup floor_walk = Some floor_walk_once \<and>
   two_stage_dedup floor_walk_once = Some floor_walk_twice \<and>
   floor_walk_twice \<noteq> floor_walk_once"
proof -
  have "floor_walk_twice \<noteq> floor_walk_once"
    by (simp add: floor_walk_twice_def floor_walk_once_def)
  then show ?thesis
    by (simp add: two_stage_dedup_def floor_walk_merge floor_walk_dedup
                  floor_walk_once_merge floor_walk_twice_dedup)
qed

subsection \<open>Node extraction\<close>

lemma nodes_of_Nil: "nodes_of ps J fl uid [] = []"
  by (simp add: nodes_of_def)

lemma upt_add_Suc: "[u..<u + Suc n] = u # [Suc u..<Suc u + n]"
  by (simp add: upt_conv_Cons del: upt_Suc)

lemma nodes_of_Cons:
  "nodes_of ps J fl uid (i # E) =
     mk_node uid (ps ! i) (if i \<in> J then JUNCTION else WAYPOINT) i fl # nodes_of ps J fl (Suc uid) E"
  unfolding nodes_of_def length_Cons upt_add_Suc by simp

lemma last_pos_Cons: "last (lp # p # qs) = last (p # qs)"
  by simp

lemma node_scan_emitted:
  "node_scan ps J sp fl is (nodes, lp, uid) =
     (nodes @ nodes_of ps J fl uid (emitted ps J sp is lp),
      last (lp # map (\<lambda>i. ps ! i) (emitted ps J sp is lp)),
      uid + length (emitted ps J sp is lp))"
proof (induction "is" arbitrary: nodes lp uid)
  case Nil
  show ?case by (simp add: nodes_of_Nil)
next
  case (Cons i rest)
  show ?case
  proof (cases "i \<in> J")
    case True
    then show ?thesis
      using Cons.IH [of "nodes @ [mk_node uid (ps ! i) JUNCTION i fl]" "ps ! i" "uid + 1"]
      by (simp add: nodes_of_Cons)
  next
    case False
    show ?thesis
    proof (cases "sp \<le> norm3 (sub3 (ps ! i) lp)")
      case True
      then show ?thesis
        using False Cons.IH [of "nodes @ [mk_node uid (ps ! i) WAYPOINT i fl]" "ps ! i" "uid + 1"]
        by (simp add: nodes_of_Cons)
    next
      case F2: False
      then show ?thesis
        using False Cons.IH [of nodes lp uid] by simp
    qed
  qed
qed

lemma emitted_subset: "set (emitted ps J sp is lp) \<subseteq> set is"
proof (induction "is" arbitrary: lp)
  case Nil
  show ?case by simp
next
  case (Cons i rest)
  show ?case using Cons.IH [of lp] Cons.IH [of "ps ! i"] by auto
qed

lemma emitted_sorted: "sorted_wrt (<) is \<Longrightarrow> sorted_wrt (<) (emitted ps J sp is lp)"
proof (induction "is" arbitrary: lp)
  case Nil
  show ?case by simp
next
  case (Cons i rest)
  then have r: "sorted_wrt (<) rest" and lt: "\<forall>k \<in> set rest. i < k" by auto
  have "\<forall>k \<in> set (emitted ps J sp rest lp'). i < k" for lp'
    using lt emitted_subset [of ps J sp rest lp'] by blast
  with Cons.IH [OF r] show ?case by simp
qed


lemma nodes_of_index: "map original_index (nodes_of ps J fl uid E) = E"
  by (induction E arbitrary: uid) (simp_all add: nodes_of_Nil nodes_of_Cons mk_node_def)

lemma nodes_of_ids: "map node_id (nodes_of ps J fl uid E) = [uid..<uid + length E]"
  by (induction E arbitrary: uid)
     (simp_all add: nodes_of_Nil nodes_of_Cons mk_node_def upt_conv_Cons del: upt_Suc)

lemma mk_node_pos: "node_pos (mk_node k p t i fl) = p"
  by (simp add: node_pos_def mk_node_def)

lemma nodes_of_props:
  "m \<in> set (nodes_of ps J fl uid E) \<Longrightarrow>
     node_pos m = ps ! original_index m \<and> floor_level m = fl \<and>
     node_type m = (if original_index m \<in> J then JUNCTION else WAYPOINT)"
  by (induction E arbitrary: uid)
     (auto simp: nodes_of_Nil nodes_of_Cons mk_node_pos, auto simp: mk_node_def)

text \<open>The node list of a polyline with at least two points, in closed form.\<close>

lemma extract_path_nodes_eq:
  assumes "2 \<le> length ps"
  shows "extract_path_nodes ps (Some js) sp fl uid =
    (mk_node uid (ps ! 0) ENDPOINT 0 fl #
     nodes_of ps (j_index ` set js) fl (Suc uid)
       (emitted ps (j_index ` set js) sp [1..<length ps - 1] (ps ! 0)) @
     [mk_node (Suc uid + length (emitted ps (j_index ` set js) sp [1..<length ps - 1] (ps ! 0)))
        (ps ! (length ps - 1)) ENDPOINT (length ps - 1) fl],
     Suc (Suc uid + length (emitted ps (j_index ` set js) sp [1..<length ps - 1] (ps ! 0))))"
  using assms by (simp add: extract_path_nodes_def node_scan_emitted)


subsection \<open>Detected junctions lie in the interior\<close>







lemma nodes_of_exists:
  "i \<in> set E \<Longrightarrow> \<exists>m \<in> set (nodes_of ps J fl uid E). original_index m = i"
  using nodes_of_index [of ps J fl uid E]
  by (metis (no_types, lifting) image_iff list.set_map)



subsection \<open>Rounding to binary64\<close>

lemma round_even_error: "\<bar>real_of_int (round_even y) - y\<bar> \<le> 1 / 2"
  unfolding round_even_def by (auto simp: abs_le_iff)

lemma round_even_of_int: "round_even (of_int m) = m"
  by (simp add: round_even_def)

lemma round_even_ge: "of_int m \<le> y \<Longrightarrow> m \<le> round_even y"
proof -
  assume "of_int m \<le> y"
  then have "m \<le> \<lfloor>y\<rfloor>" by (simp add: le_floor_iff)
  then show ?thesis by (auto simp: round_even_def)
qed

lemma quantum64_pos: "0 < quantum64 x"
  by (simp add: quantum64_def)

lemma quantum64_minus: "quantum64 (- x) = quantum64 x"
  by (simp add: quantum64_def)

lemma float64_zero: "float64 0 = 0"
  by (simp add: float64_def)

lemma float64_minus: "float64 (- x) = - float64 x"
  by (simp add: float64_def quantum64_minus sgn_minus)

lemma float64_nonneg: "0 \<le> x \<Longrightarrow> 0 \<le> float64 x"
proof -
  assume x: "0 \<le> x"
  have "of_int 0 \<le> \<bar>x\<bar> / quantum64 x" using quantum64_pos [of x] by simp
  then have "0 \<le> round_even (\<bar>x\<bar> / quantum64 x)" by (rule round_even_ge)
  then show ?thesis using x quantum64_pos [of x] by (simp add: float64_def sgn_if)
qed

lemma floor_log2_bounds:
  assumes "0 < y"
  shows "2 powr real_of_int \<lfloor>log 2 y\<rfloor> \<le> y" and "y < 2 powr (real_of_int \<lfloor>log 2 y\<rfloor> + 1)"
proof -
  have "real_of_int \<lfloor>log 2 y\<rfloor> \<le> log 2 y" by simp
  then have "2 powr real_of_int \<lfloor>log 2 y\<rfloor> \<le> 2 powr log 2 y" by simp
  then show "2 powr real_of_int \<lfloor>log 2 y\<rfloor> \<le> y" using assms by simp
  have "log 2 y < real_of_int \<lfloor>log 2 y\<rfloor> + 1" by linarith
  then have "2 powr log 2 y < 2 powr (real_of_int \<lfloor>log 2 y\<rfloor> + 1)" by simp
  then show "y < 2 powr (real_of_int \<lfloor>log 2 y\<rfloor> + 1)" using assms by simp
qed

lemma quantum64_normal:
  assumes "2 powr (- 1022) \<le> \<bar>x\<bar>"
  shows "quantum64 x * 2 ^ 52 \<le> \<bar>x\<bar>" and "2 powr (- 1022) \<le> quantum64 x * 2 ^ 52"
proof -
  have pos: "0 < \<bar>x\<bar>" using assms by (smt (verit) powr_gt_zero)
  have "- 1022 \<le> log 2 \<bar>x\<bar>" using assms pos by (simp add: le_log_iff)
  then have fl: "- 1022 \<le> \<lfloor>log 2 \<bar>x\<bar>\<rfloor>" by (simp add: le_floor_iff)
  then have "max \<lfloor>log 2 \<bar>x\<bar>\<rfloor> (- 1022) = \<lfloor>log 2 \<bar>x\<bar>\<rfloor>" by (rule max_absorb1)
  then have q: "quantum64 x = 2 powr (real_of_int \<lfloor>log 2 \<bar>x\<bar>\<rfloor> - 52)"
    unfolding quantum64_def by (simp only:)
  have "quantum64 x * 2 ^ 52 = 2 powr (real_of_int \<lfloor>log 2 \<bar>x\<bar>\<rfloor> - 52) * 2 powr 52"
    by (simp add: q)
  also have "\<dots> = 2 powr real_of_int \<lfloor>log 2 \<bar>x\<bar>\<rfloor>"
    by (simp only: powr_add [symmetric]) simp
  finally have eq: "quantum64 x * 2 ^ 52 = 2 powr real_of_int \<lfloor>log 2 \<bar>x\<bar>\<rfloor>" .
  show "quantum64 x * 2 ^ 52 \<le> \<bar>x\<bar>" unfolding eq using floor_log2_bounds(1) [OF pos] .
  from fl have "real_of_int (- 1022) \<le> real_of_int \<lfloor>log 2 \<bar>x\<bar>\<rfloor>" by (simp only: of_int_le_iff)
  then show "2 powr (- 1022) \<le> quantum64 x * 2 ^ 52" unfolding eq by simp
qed

lemma float64_abs: "\<bar>float64 x\<bar> = real_of_int (round_even (\<bar>x\<bar> / quantum64 x)) * quantum64 x"
proof (cases "x = 0")
  case True
  then show ?thesis by (simp add: float64_def round_even_def)
next
  case False
  have "of_int 0 \<le> \<bar>x\<bar> / quantum64 x" using quantum64_pos [of x] by simp
  then have "0 \<le> round_even (\<bar>x\<bar> / quantum64 x)" by (rule round_even_ge)
  then show ?thesis using False quantum64_pos [of x]
    by (simp add: float64_def abs_mult abs_sgn_eq)
qed

lemma float64_error:
  assumes "2 powr (- 1022) \<le> \<bar>x\<bar>"
  shows "\<bar>float64 x - x\<bar> \<le> eps64 * \<bar>x\<bar>"
proof -
  have pos: "0 < \<bar>x\<bar>" using assms by (smt (verit) powr_gt_zero)
  define q where "q = quantum64 x"
  define r where "r = real_of_int (round_even (\<bar>x\<bar> / q))"
  have q: "0 < q" unfolding q_def by (rule quantum64_pos)
  have fx: "float64 x = sgn x * (r * q)" using pos by (simp add: float64_def r_def q_def)
  have "x = sgn x * \<bar>x\<bar>" by (simp add: sgn_if)
  then have "float64 x - x = sgn x * (r * q - \<bar>x\<bar>)" unfolding fx by (simp add: algebra_simps)
  then have "\<bar>float64 x - x\<bar> = \<bar>r * q - \<bar>x\<bar>\<bar>" using pos by (simp add: abs_mult abs_sgn_eq)
  also have "r * q - \<bar>x\<bar> = (r - \<bar>x\<bar> / q) * q" using q by (simp add: field_simps)
  also have "\<bar>(r - \<bar>x\<bar> / q) * q\<bar> = \<bar>r - \<bar>x\<bar> / q\<bar> * q" using q by (simp add: abs_mult)
  also have "\<dots> \<le> (1 / 2) * q"
    using round_even_error [of "\<bar>x\<bar> / q"] q unfolding r_def by (intro mult_right_mono) simp_all
  also have "\<dots> \<le> eps64 * \<bar>x\<bar>"
    using quantum64_normal(1) [OF assms] unfolding q_def eps64_def by simp
  finally show ?thesis .
qed

lemma float64_ge_min_normal:
  assumes "2 powr (- 1022) \<le> x"
  shows "2 powr (- 1022) \<le> float64 x"
proof -
  have pos: "0 < x" using assms by (smt (verit) powr_gt_zero)
  then have a: "2 powr (- 1022) \<le> \<bar>x\<bar>" using assms by simp
  define q where "q = quantum64 x"
  have q: "0 < q" unfolding q_def by (rule quantum64_pos)
  have "q * 2 ^ 52 \<le> x" using quantum64_normal(1) [OF a] pos by (simp add: q_def)
  then have "real_of_int (2 ^ 52) \<le> \<bar>x\<bar> / q" using q pos by (simp add: field_simps)
  then have "2 ^ 52 \<le> round_even (\<bar>x\<bar> / q)" by (rule round_even_ge)
  then have "real_of_int (2 ^ 52) \<le> real_of_int (round_even (\<bar>x\<bar> / q))"
    by (simp only: of_int_le_iff)
  then have "(2 ^ 52 :: real) \<le> real_of_int (round_even (\<bar>x\<bar> / q))" by simp
  then have "2 ^ 52 * q \<le> real_of_int (round_even (\<bar>x\<bar> / q)) * q"
    using q by (intro mult_right_mono) simp_all
  moreover have "float64 x = real_of_int (round_even (\<bar>x\<bar> / q)) * q"
    using pos by (simp add: float64_def q_def)
  moreover have "2 powr (- 1022) \<le> q * 2 ^ 52" using quantum64_normal(2) [OF a] by (simp add: q_def)
  ultimately show ?thesis by (simp add: mult.commute)
qed

lemma float64_lower:
  assumes "x = 0 \<or> 2 powr (- 1022) \<le> x"
  shows "(1 - eps64) * x \<le> float64 x"
proof (cases "x = 0")
  case True
  then show ?thesis by (simp add: float64_zero)
next
  case False
  with assms have n: "2 powr (- 1022) \<le> x" by simp
  then have pos: "0 < x" by (smt (verit) powr_gt_zero)
  have "\<bar>float64 x - x\<bar> \<le> eps64 * \<bar>x\<bar>" using n pos by (intro float64_error) simp
  then show ?thesis using pos by (simp add: abs_le_iff algebra_simps)
qed

lemma float64_upper:
  assumes "x = 0 \<or> 2 powr (- 1022) \<le> x"
  shows "float64 x \<le> (1 + eps64) * x"
proof (cases "x = 0")
  case True
  then show ?thesis by (simp add: float64_zero)
next
  case False
  with assms have n: "2 powr (- 1022) \<le> x" by simp
  then have pos: "0 < x" by (smt (verit) powr_gt_zero)
  have "\<bar>float64 x - x\<bar> \<le> eps64 * \<bar>x\<bar>" using n pos by (intro float64_error) simp
  then show ?thesis using pos by (simp add: abs_le_iff algebra_simps)
qed

lemma round_even_nearest:
  assumes "\<bar>y - real_of_int m\<bar> < 1 / 2"
  shows "round_even y = m"
proof (cases "real_of_int m \<le> y")
  case True
  then have "\<lfloor>y\<rfloor> = m" using assms by (intro floor_unique) (simp_all add: abs_less_iff)
  then show ?thesis using assms True by (simp add: round_even_def abs_less_iff)
next
  case False
  then have "\<lfloor>y\<rfloor> = m - 1" using assms by (intro floor_unique) (simp_all add: abs_less_iff)
  then show ?thesis using assms False by (simp add: round_even_def abs_less_iff)
qed

lemma floor_log2_eq:
  assumes "2 powr real_of_int e \<le> y" "y < 2 powr (real_of_int e + 1)"
  shows "\<lfloor>log 2 y\<rfloor> = e"
proof -
  have pos: "0 < y" using assms(1) by (smt (verit) powr_gt_zero)
  have "real_of_int e \<le> log 2 y" using assms(1) pos by (simp add: le_log_iff)
  moreover have "log 2 y < real_of_int e + 1" using assms(2) pos by (simp add: log_less_iff)
  ultimately show ?thesis by (intro floor_unique) simp_all
qed

lemma float64_nearest:
  assumes y: "0 < y" and m: "2 ^ 52 < m" "m < 2 ^ 53" and k: "- 1074 \<le> k"
    and near: "\<bar>y - real_of_int m * 2 powr real_of_int k\<bar> < 2 powr real_of_int k / 2"
  shows "float64 y = real_of_int m * 2 powr real_of_int k"
proof -
  define c where "c = 2 powr real_of_int k"
  have c: "0 < c" by (simp add: c_def)
  from m(1) have "2 ^ 52 + 1 \<le> m" by simp
  then have "real_of_int (2 ^ 52 + 1) \<le> real_of_int m" by (simp only: of_int_le_iff)
  then have m1: "(2 ^ 52 :: real) + 1 \<le> real_of_int m" by simp
  from m(2) have "m + 1 \<le> 2 ^ 53" by simp
  then have "real_of_int (m + 1) \<le> real_of_int (2 ^ 53)" by (simp only: of_int_le_iff)
  then have m2: "real_of_int m + 1 \<le> 2 ^ 53" by simp
  have near': "\<bar>y - real_of_int m * c\<bar> < c / 2" using near by (simp add: c_def)
  have e1: "(real_of_int m - 1 / 2) * c = real_of_int m * c - c / 2"
    and e2: "(real_of_int m + 1 / 2) * c = real_of_int m * c + c / 2"
    by (simp_all add: algebra_simps)
  have lo: "(real_of_int m - 1 / 2) * c < y" and hi: "y < (real_of_int m + 1 / 2) * c"
    unfolding e1 e2 using near' by linarith+
  have a1: "2 ^ 52 * c \<le> (real_of_int m - 1 / 2) * c" using m1 c by (intro mult_right_mono) simp_all
  have p1: "2 powr (real_of_int (k + 52)) = 2 ^ 52 * c" by (simp add: powr_add c_def)
  have l: "2 powr (real_of_int (k + 52)) \<le> y" unfolding p1 using a1 lo by linarith
  have a2: "(real_of_int m + 1 / 2) * c \<le> 2 ^ 53 * c" using m2 c by (intro mult_right_mono) simp_all
  have p2: "2 powr (real_of_int (k + 52) + 1) = 2 ^ 53 * c" by (simp add: powr_add c_def)
  have h: "y < 2 powr (real_of_int (k + 52) + 1)" unfolding p2 using a2 hi by linarith
  have e: "\<lfloor>log 2 y\<rfloor> = k + 52" using l h by (rule floor_log2_eq)
  have "max (k + 52) (- 1022) = k + 52" using k by simp
  then have "real_of_int (max (k + 52) (- 1022)) - 52 = real_of_int k" by simp
  then have q: "quantum64 y = c"
    using y unfolding quantum64_def c_def by (simp only: e abs_of_pos)
  have "y / c - real_of_int m = (y - real_of_int m * c) / c" using c by (simp add: field_simps)
  then have "\<bar>y / c - real_of_int m\<bar> = \<bar>y - real_of_int m * c\<bar> / c" using c by simp
  also have "\<dots> < (c / 2) / c" using near' c by (rule divide_strict_right_mono)
  also have "\<dots> = 1 / 2" using c by simp
  finally have "\<bar>y / c - real_of_int m\<bar> < 1 / 2" .
  then have "round_even (y / c) = m" by (rule round_even_nearest)
  then show ?thesis using y by (simp add: float64_def q c_def [symmetric])
qed

lemma float64_exact:
  assumes x: "x = real_of_int m * 2 powr real_of_int k" and m: "\<bar>m\<bar> < 2 ^ 53" and k: "- 1074 \<le> k"
  shows "float64 x = x"
proof (cases "m = 0")
  case True
  then show ?thesis using x by (simp add: float64_zero)
next
  case False
  define y where "y = \<bar>x\<bar>"
  have yx: "y = real_of_int \<bar>m\<bar> * 2 powr real_of_int k" by (simp add: y_def x abs_mult)
  have y: "0 < y" using False by (simp add: yx)
  from m have "real_of_int \<bar>m\<bar> < real_of_int (2 ^ 53)" by (simp only: of_int_less_iff)
  then have "real_of_int \<bar>m\<bar> < 2 ^ 53" by simp
  then have "y < 2 ^ 53 * 2 powr real_of_int k" unfolding yx by (intro mult_strict_right_mono) simp_all
  then have "y < 2 powr (real_of_int (k + 53))" by (simp add: powr_add mult.commute)
  then have "log 2 y < real_of_int (k + 53)" using y by (simp add: log_less_iff)
  then have "\<lfloor>log 2 y\<rfloor> < k + 53" by (simp add: floor_less_iff)
  then have E: "max \<lfloor>log 2 y\<rfloor> (- 1022) - 52 \<le> k" using k by simp
  define n where "n = nat (k - (max \<lfloor>log 2 y\<rfloor> (- 1022) - 52))"
  have kn: "real_of_int k = real_of_int (max \<lfloor>log 2 y\<rfloor> (- 1022)) - 52 + real n"
    using E by (simp add: n_def)
  have q: "quantum64 x = 2 powr (real_of_int (max \<lfloor>log 2 y\<rfloor> (- 1022)) - 52)"
    by (simp add: quantum64_def y_def)
  have "2 powr real_of_int k = quantum64 x * 2 ^ n"
    unfolding kn q by (simp add: powr_add powr_realpow)
  then have yq: "y / quantum64 x = real_of_int (\<bar>m\<bar> * 2 ^ n)"
    using quantum64_pos [of x] by (simp add: yx)
  have "round_even (y / quantum64 x) = \<bar>m\<bar> * 2 ^ n" unfolding yq by (rule round_even_of_int)
  moreover have "y = real_of_int (\<bar>m\<bar> * 2 ^ n) * quantum64 x"
    using yq quantum64_pos [of x] by (simp add: field_simps)
  ultimately have "real_of_int (round_even (\<bar>x\<bar> / quantum64 x)) * quantum64 x = y"
    by (simp add: y_def)
  moreover have "x \<noteq> 0" using y by (simp add: y_def)
  ultimately show ?thesis by (simp add: float64_def y_def sgn_if)
qed

lemma float64_one: "float64 1 = 1"
  using float64_exact [of 1 1 0] by simp

subsection \<open>Rounding error of a segment length and of a running sum\<close>

lemma eps64_bounds: "0 < eps64" "eps64 < 1" "0 < 1 - eps64" "1 - eps64 \<le> 1" "1 \<le> 1 + eps64"
  by (simp_all add: eps64_def)

lemma normal_or_zero_nonneg: "normal_or_zero x \<Longrightarrow> 0 \<le> x"
  unfolding normal_or_zero_def by (smt (verit) powr_gt_zero)

lemma normal_or_zero_0: "normal_or_zero 0"
  by (simp add: normal_or_zero_def)

lemma normal_or_zero_add: "normal_or_zero x \<Longrightarrow> normal_or_zero y \<Longrightarrow> normal_or_zero (x + y)"
  using normal_or_zero_nonneg [of x] normal_or_zero_nonneg [of y]
  unfolding normal_or_zero_def by auto

lemma normal_or_zero_float64: "normal_or_zero x \<Longrightarrow> normal_or_zero (float64 x)"
  unfolding normal_or_zero_def using float64_ge_min_normal [of x] by (auto simp: float64_zero)

lemma float64_lower_nz: "normal_or_zero x \<Longrightarrow> (1 - eps64) * x \<le> float64 x"
  unfolding normal_or_zero_def by (rule float64_lower)

lemma float64_upper_nz: "normal_or_zero x \<Longrightarrow> float64 x \<le> (1 + eps64) * x"
  unfolding normal_or_zero_def by (rule float64_upper)

lemma sqrt_min_normal: "2 powr (- 1022) \<le> sqrt (2 powr (- 1022))"
proof -
  have "(2 powr (- 1022) :: real) \<le> 1" by (simp add: powr_neg_numeral)
  then have "(2 powr (- 1022) :: real) * 2 powr (- 1022) \<le> 1 * 2 powr (- 1022)"
    by (intro mult_right_mono) simp_all
  then have "(2 powr (- 1022) :: real)\<^sup>2 \<le> 2 powr (- 1022)" by (simp add: power2_eq_square)
  then show ?thesis by (rule real_le_rsqrt)
qed

lemma normal_or_zero_sqrt: "normal_or_zero x \<Longrightarrow> normal_or_zero (sqrt x)"
proof -
  assume "normal_or_zero x"
  then consider "x = 0" | "2 powr (- 1022) \<le> x" unfolding normal_or_zero_def by auto
  then show ?thesis
  proof cases
    case 1
    then show ?thesis by (simp add: normal_or_zero_def)
  next
    case 2
    then have "sqrt (2 powr (- 1022)) \<le> sqrt x" by simp
    then show ?thesis using sqrt_min_normal unfolding normal_or_zero_def by linarith
  qed
qed

text \<open>The rounded square of a rounded coordinate difference.\<close>

lemma rounded_square:
  assumes "in_band d"
  shows "normal_or_zero (float64 (float64 d * float64 d))"
    and "(1 - eps64) ^ 3 * (d * d) \<le> float64 (float64 d * float64 d)"
proof -
  define a where "a = 1 - eps64"
  have a: "0 < a" "a \<le> 1" unfolding a_def using eps64_bounds by simp_all
  define f where "f = float64 d"
  have "normal_or_zero (f * f) \<and> a ^ 2 * (d * d) \<le> f * f"
  proof (cases "d = 0")
    case True
    then show ?thesis by (simp add: f_def float64_zero normal_or_zero_def)
  next
    case False
    with assms have band: "1 / 2 ^ 500 \<le> \<bar>d\<bar>" by (simp add: in_band_def)
    have "(2 powr (- 1022) :: real) \<le> 1 / 2 ^ 500" by (simp add: powr_neg_numeral)
    with band have n: "2 powr (- 1022) \<le> \<bar>d\<bar>" by linarith
    have "\<bar>f - d\<bar> \<le> eps64 * \<bar>d\<bar>" unfolding f_def using n by (rule float64_error)
    then have "\<bar>d\<bar> - \<bar>f\<bar> \<le> eps64 * \<bar>d\<bar>" by linarith
    then have lo: "a * \<bar>d\<bar> \<le> \<bar>f\<bar>" by (simp add: a_def algebra_simps)
    have nn: "0 \<le> a * \<bar>d\<bar>" using a by simp
    have "(a * \<bar>d\<bar>) * (a * \<bar>d\<bar>) \<le> \<bar>f\<bar> * \<bar>f\<bar>" using lo nn by (intro mult_mono) simp_all
    then have sq: "a ^ 2 * (d * d) \<le> f * f" by (simp add: power2_eq_square algebra_simps abs_mult_self_eq)
    have h: "(1 / 2 :: real) \<le> a" by (simp add: a_def eps64_def)
    have "(1 / 2) * (1 / 2 ^ 500) \<le> a * \<bar>d\<bar>" using h band by (intro mult_mono) simp_all
    then have "1 / 2 ^ 501 \<le> \<bar>f\<bar>" using lo by simp
    then have "(1 / 2 ^ 501) * (1 / 2 ^ 501) \<le> \<bar>f\<bar> * \<bar>f\<bar>" by (intro mult_mono) simp_all
    then have "(1 / 2 ^ 501) * (1 / 2 ^ 501) \<le> f * f" by (simp add: abs_mult_self_eq)
    moreover have "(2 powr (- 1022) :: real) \<le> (1 / 2 ^ 501) * (1 / 2 ^ 501)" by (simp add: powr_neg_numeral)
    ultimately have "2 powr (- 1022) \<le> f * f" by linarith
    then show ?thesis using sq by (simp add: normal_or_zero_def)
  qed
  then have nz: "normal_or_zero (f * f)" and sq: "a ^ 2 * (d * d) \<le> f * f" by simp_all
  show "normal_or_zero (float64 (float64 d * float64 d))"
    using nz unfolding f_def by (rule normal_or_zero_float64)
  have "a * (a ^ 2 * (d * d)) \<le> a * (f * f)" using sq a by (intro mult_left_mono) simp_all
  also have "\<dots> \<le> float64 (f * f)" unfolding a_def using nz by (rule float64_lower_nz)
  finally show "(1 - eps64) ^ 3 * (d * d) \<le> float64 (float64 d * float64 d)"
    by (simp add: a_def f_def power3_eq_cube power2_eq_square algebra_simps)
qed

lemma norm_f64_lower:
  assumes "in_band dx" "in_band dy" "in_band dz"
  shows "normal_or_zero (norm_f64 (float64 dx, float64 dy, float64 dz))"
    and "(1 - eps64) ^ 4 * norm3 (dx, dy, dz) \<le> norm_f64 (float64 dx, float64 dy, float64 dz)"
proof -
  define a where "a = 1 - eps64"
  have a: "0 < a" "a \<le> 1" unfolding a_def using eps64_bounds by simp_all
  define q1 where "q1 = float64 (float64 dx * float64 dx)"
  define q2 where "q2 = float64 (float64 dy * float64 dy)"
  define q3 where "q3 = float64 (float64 dz * float64 dz)"
  define s1 where "s1 = float64 (q1 + q2)"
  define s2 where "s2 = float64 (s1 + q3)"
  define S where "S = dx * dx + dy * dy + dz * dz"
  have S: "0 \<le> S" by (simp add: S_def)
  have n1: "normal_or_zero q1" and l1: "a ^ 3 * (dx * dx) \<le> q1"
    unfolding q1_def a_def using rounded_square [OF assms(1)] by simp_all
  have n2: "normal_or_zero q2" and l2: "a ^ 3 * (dy * dy) \<le> q2"
    unfolding q2_def a_def using rounded_square [OF assms(2)] by simp_all
  have n3: "normal_or_zero q3" and l3: "a ^ 3 * (dz * dz) \<le> q3"
    unfolding q3_def a_def using rounded_square [OF assms(3)] by simp_all
  have q3nn: "0 \<le> q3" using n3 by (rule normal_or_zero_nonneg)
  have n12: "normal_or_zero (q1 + q2)" using n1 n2 by (rule normal_or_zero_add)
  have ns1: "normal_or_zero s1" unfolding s1_def using n12 by (rule normal_or_zero_float64)
  have ls1: "a * (q1 + q2) \<le> s1" unfolding s1_def a_def using n12 by (rule float64_lower_nz)
  have n13: "normal_or_zero (s1 + q3)" using ns1 n3 by (rule normal_or_zero_add)
  have ns2: "normal_or_zero s2" unfolding s2_def using n13 by (rule normal_or_zero_float64)
  have ls2: "a * (s1 + q3) \<le> s2" unfolding s2_def a_def using n13 by (rule float64_lower_nz)
  have "a * q3 \<le> 1 * q3" using a q3nn by (intro mult_right_mono) simp_all
  then have "a * (q1 + q2) + a * q3 \<le> s1 + q3" using ls1 by simp
  then have "a * (a * (q1 + q2) + a * q3) \<le> a * (s1 + q3)" using a by (intro mult_left_mono) simp_all
  then have "a ^ 2 * (q1 + q2 + q3) \<le> s2" using ls2 by (simp add: power2_eq_square algebra_simps)
  moreover have "a ^ 3 * S \<le> q1 + q2 + q3" using l1 l2 l3 by (simp add: S_def algebra_simps)
  moreover have "a ^ 2 * (a ^ 3 * S) \<le> a ^ 2 * (q1 + q2 + q3)"
    using calculation(2) a by (intro mult_left_mono) simp_all
  ultimately have "a ^ 5 * S \<le> s2" by (simp add: power_add [symmetric] mult.assoc [symmetric])
  moreover have "a ^ 6 * S \<le> a ^ 5 * S"
    using a S by (intro mult_right_mono power_decreasing) simp_all
  ultimately have "(a ^ 3)\<^sup>2 * S \<le> s2" by (simp add: power_mult [symmetric])
  then have "sqrt ((a ^ 3)\<^sup>2 * S) \<le> sqrt s2" by simp
  moreover have "sqrt ((a ^ 3)\<^sup>2 * S) = sqrt ((a ^ 3)\<^sup>2) * sqrt S" by (rule real_sqrt_mult)
  moreover have "sqrt ((a ^ 3)\<^sup>2) = \<bar>a ^ 3\<bar>" by (rule real_sqrt_abs)
  moreover have "\<bar>a ^ 3\<bar> = a ^ 3" using a by simp
  ultimately have rt: "a ^ 3 * sqrt S \<le> sqrt s2" by (simp only:)
  have nr: "normal_or_zero (sqrt s2)" using ns2 by (rule normal_or_zero_sqrt)
  have nf: "norm_f64 (float64 dx, float64 dy, float64 dz) = float64 (sqrt s2)"
    by (simp add: norm_f64_def s2_def s1_def q1_def q2_def q3_def)
  show "normal_or_zero (norm_f64 (float64 dx, float64 dy, float64 dz))"
    unfolding nf using nr by (rule normal_or_zero_float64)
  have "a * (a ^ 3 * sqrt S) \<le> a * sqrt s2" using rt a by (intro mult_left_mono) simp_all
  also have "\<dots> \<le> float64 (sqrt s2)" unfolding a_def using nr by (rule float64_lower_nz)
  finally show "(1 - eps64) ^ 4 * norm3 (dx, dy, dz) \<le> norm_f64 (float64 dx, float64 dy, float64 dz)"
    unfolding nf by (simp add: a_def norm3_def sq3_def S_def power4_eq_xxxx power3_eq_cube algebra_simps)
qed

lemma segment_norm_lower:
  assumes ws: "well_scaled ps" and i: "i + 1 < length ps"
  shows "normal_or_zero (norm_f64 (sub_f64 (ps ! (i + 1)) (ps ! i)))"
    and "(1 - eps64) ^ 4 * norm3 (sub3 (ps ! (i + 1)) (ps ! i)) \<le> norm_f64 (sub_f64 (ps ! (i + 1)) (ps ! i))"
proof -
  obtain x1 y1 z1 where p: "ps ! i = (x1, y1, z1)" by (cases "ps ! i")
  obtain x2 y2 z2 where q: "ps ! Suc i = (x2, y2, z2)" by (cases "ps ! Suc i")
  define P where "P = (\<lambda>i. case sub3 (ps ! (i + 1)) (ps ! i) of
                      (dx, dy, dz) \<Rightarrow> in_band dx \<and> in_band dy \<and> in_band dz)"
  have "list_all P [0..<length ps - 1]" using ws unfolding well_scaled_def P_def .
  then have "P i" using i by (simp add: list_all_iff)
  then have "case sub3 (ps ! (i + 1)) (ps ! i) of (dx, dy, dz) \<Rightarrow> in_band dx \<and> in_band dy \<and> in_band dz"
    unfolding P_def .
  then have b: "in_band (x2 - x1)" "in_band (y2 - y1)" "in_band (z2 - z1)"
    by (simp_all add: p q sub3_def)
  have s: "sub_f64 (ps ! (i + 1)) (ps ! i) = (float64 (x2 - x1), float64 (y2 - y1), float64 (z2 - z1))"
    by (simp add: p q sub_f64_def)
  have t: "sub3 (ps ! (i + 1)) (ps ! i) = (x2 - x1, y2 - y1, z2 - z1)"
    by (simp add: p q sub3_def)
  show "normal_or_zero (norm_f64 (sub_f64 (ps ! (i + 1)) (ps ! i)))"
    unfolding s by (rule norm_f64_lower(1) [OF b])
  show "(1 - eps64) ^ 4 * norm3 (sub3 (ps ! (i + 1)) (ps ! i)) \<le> norm_f64 (sub_f64 (ps ! (i + 1)) (ps ! i))"
    unfolding s t by (rule norm_f64_lower(2) [OF b])
qed

lemma running_sum_bounds:
  assumes "\<forall>t \<in> set ts. normal_or_zero t" and "normal_or_zero acc"
  shows "normal_or_zero (running_sum ts acc)"
    and "(1 - eps64) ^ length ts * (acc + sum_list ts) \<le> running_sum ts acc"
    and "running_sum ts acc \<le> (1 + eps64) ^ length ts * (acc + sum_list ts)"
proof -
  define a where "a = 1 - eps64"
  define b where "b = 1 + eps64"
  have a: "0 < a" "a \<le> 1" unfolding a_def using eps64_bounds by simp_all
  have b: "1 \<le> b" unfolding b_def using eps64_bounds by simp
  have "normal_or_zero (running_sum ts acc) \<and>
        a ^ length ts * (acc + sum_list ts) \<le> running_sum ts acc \<and>
        running_sum ts acc \<le> b ^ length ts * (acc + sum_list ts)"
    using assms
  proof (induction ts arbitrary: acc)
    case Nil
    then show ?case by (simp add: running_sum_def)
  next
    case (Cons t ts)
    have nt: "normal_or_zero t" and rest: "\<forall>t \<in> set ts. normal_or_zero t" using Cons.prems(1) by simp_all
    have sum: "normal_or_zero (acc + t)" using Cons.prems(2) nt by (rule normal_or_zero_add)
    have nacc: "normal_or_zero (float64 (acc + t))" using sum by (rule normal_or_zero_float64)
    have lo: "a * (acc + t) \<le> float64 (acc + t)" unfolding a_def using sum by (rule float64_lower_nz)
    have hi: "float64 (acc + t) \<le> b * (acc + t)" unfolding b_def using sum by (rule float64_upper_nz)
    have snn: "0 \<le> sum_list ts" using rest normal_or_zero_nonneg by (intro sum_list_nonneg) blast
    have ann: "0 \<le> acc + t" using sum by (rule normal_or_zero_nonneg)
    note IH = Cons.IH [OF rest nacc]
    have step: "running_sum (t # ts) acc = running_sum ts (float64 (acc + t))"
      by (simp add: running_sum_def)
    have "a * sum_list ts \<le> 1 * sum_list ts" using a snn by (intro mult_right_mono) simp_all
    then have "a * (acc + t + sum_list ts) \<le> float64 (acc + t) + sum_list ts"
      using lo by (simp add: algebra_simps)
    then have "a ^ length ts * (a * (acc + t + sum_list ts)) \<le> a ^ length ts * (float64 (acc + t) + sum_list ts)"
      using a by (intro mult_left_mono) simp_all
    then have l: "a ^ length (t # ts) * (acc + sum_list (t # ts)) \<le> running_sum (t # ts) acc"
      unfolding step using IH by (simp add: algebra_simps)
    have "1 * sum_list ts \<le> b * sum_list ts" using b snn by (intro mult_right_mono) simp_all
    then have "float64 (acc + t) + sum_list ts \<le> b * (acc + t + sum_list ts)"
      using hi by (simp add: algebra_simps)
    then have "b ^ length ts * (float64 (acc + t) + sum_list ts) \<le> b ^ length ts * (b * (acc + t + sum_list ts))"
      using b by (intro mult_left_mono) simp_all
    then have h: "running_sum (t # ts) acc \<le> b ^ length (t # ts) * (acc + sum_list (t # ts))"
      unfolding step using IH by (simp add: algebra_simps)
    show ?case using IH l h unfolding step by simp
  qed
  then show "normal_or_zero (running_sum ts acc)"
    and "(1 - eps64) ^ length ts * (acc + sum_list ts) \<le> running_sum ts acc"
    and "running_sum ts acc \<le> (1 + eps64) ^ length ts * (acc + sum_list ts)"
    by (simp_all add: a_def b_def)
qed

subsection \<open>Triangle inequality\<close>

lemma sqrt_sum3_triangle:
  "sqrt ((a1 + b1) * (a1 + b1) + (a2 + b2) * (a2 + b2) + (a3 + b3) * (a3 + b3))
     \<le> sqrt (a1 * a1 + a2 * a2 + a3 * a3) + sqrt (b1 * b1 + b2 * b2 + b3 * b3)"
proof -
  let ?A = "sqrt (a1\<^sup>2 + a2\<^sup>2)" and ?B = "sqrt (b1\<^sup>2 + b2\<^sup>2)"
  have t2: "sqrt ((a1 + b1)\<^sup>2 + (a2 + b2)\<^sup>2) \<le> ?A + ?B"
    by (rule real_sqrt_sum_squares_triangle_ineq)
  have nn: "0 \<le> sqrt ((a1 + b1)\<^sup>2 + (a2 + b2)\<^sup>2)" by simp
  have "(sqrt ((a1 + b1)\<^sup>2 + (a2 + b2)\<^sup>2))\<^sup>2 \<le> (?A + ?B)\<^sup>2"
    using t2 nn by (rule power_mono)
  then have "(a1 + b1)\<^sup>2 + (a2 + b2)\<^sup>2 \<le> (?A + ?B)\<^sup>2" by simp
  then have "sqrt ((a1 + b1)\<^sup>2 + (a2 + b2)\<^sup>2 + (a3 + b3)\<^sup>2) \<le> sqrt ((?A + ?B)\<^sup>2 + (a3 + b3)\<^sup>2)"
    by simp
  also have "\<dots> \<le> sqrt (?A\<^sup>2 + a3\<^sup>2) + sqrt (?B\<^sup>2 + b3\<^sup>2)"
    by (rule real_sqrt_sum_squares_triangle_ineq)
  also have "\<dots> = sqrt (a1\<^sup>2 + a2\<^sup>2 + a3\<^sup>2) + sqrt (b1\<^sup>2 + b2\<^sup>2 + b3\<^sup>2)"
    by simp
  finally show ?thesis by (simp add: power2_eq_square)
qed

lemma norm3_triangle: "norm3 (add3 a b) \<le> norm3 a + norm3 b"
  by (cases a, cases b) (simp add: norm3_def sq3_def add3_def sqrt_sum3_triangle)

lemma sub3_split: "sub3 a c = add3 (sub3 a b) (sub3 b c)"
  by (cases a, cases b, cases c) (simp add: sub3_def add3_def)

lemma dist3_triangle: "dist3 a c \<le> dist3 a b + dist3 b c"
  unfolding dist3_def using norm3_triangle [of "sub3 a b" "sub3 b c"]
  by (simp add: sub3_split [of a c b])

lemma dist3_self: "dist3 a a = 0"
  by (cases a) (simp add: dist3_def norm3_def sq3_def sub3_def)

subsection \<open>Exact path length between indices\<close>

lemma chord_le_path:
  "a \<le> b \<Longrightarrow> dist3 (ps ! a) (ps ! b) \<le> path_length ps a b"
proof (induction b)
  case 0
  then show ?case by (simp add: dist3_self path_length_def)
next
  case (Suc b)
  show ?case
  proof (cases "a = Suc b")
    case True
    then show ?thesis by (simp add: dist3_self path_length_def)
  next
    case False
    with Suc.prems have ab: "a \<le> b" by simp
    have "dist3 (ps ! a) (ps ! Suc b) \<le> dist3 (ps ! a) (ps ! b) + dist3 (ps ! b) (ps ! Suc b)"
      by (rule dist3_triangle)
    also have "\<dots> \<le> path_length ps a b + dist3 (ps ! Suc b) (ps ! b)"
      using Suc.IH [OF ab] by (simp add: dist3_sym)
    also have "\<dots> = path_length ps a (Suc b)"
      using ab by (simp add: path_length_def dist3_def)
    finally show ?thesis .
  qed
qed

subsection \<open>The edge loop\<close>

lemma edge_scan_core:
  "map edge_core (fst (edge_scan ps mx ns (edges, uid))) =
     map edge_core edges @
     map (\<lambda>(n1, n2). (node_id n1, node_id n2,
                       calculate_path_distance ps (original_index n1) (original_index n2),
                       HORIZONTAL))
         (filter (\<lambda>(n1, n2). calculate_path_distance ps (original_index n1) (original_index n2) \<le> mx)
                 (zip ns (tl ns)))"
proof (induction ns arbitrary: edges uid)
  case Nil
  show ?case by simp
next
  case (Cons n1 rest)
  show ?case
  proof (cases rest)
    case Nil
    then show ?thesis by simp
  next
    case (Cons n2 rest')
    show ?thesis
      using Cons.IH [of "edges @ [\<lparr>edge_id = uid, from_node_id = node_id n1, to_node_id = node_id n2,
                        distance = calculate_path_distance ps (original_index n1) (original_index n2),
                        is_bidirectional = True, edge_type = HORIZONTAL\<rparr>]" "uid + 1"]
            Cons.IH [of edges uid]
      by (simp add: Cons edge_core_def)
  qed
qed

lemma zip_tl_sorted:
  "sorted (map f xs) \<Longrightarrow> (a, b) \<in> set (zip xs (tl xs)) \<Longrightarrow> f a \<le> (f b :: nat)"
proof (induction xs)
  case Nil
  then show ?case by simp
next
  case (Cons x xs)
  show ?case
  proof (cases xs)
    case Nil
    with Cons.prems show ?thesis by simp
  next
    case (Cons y ys)
    with Cons.prems Cons.IH show ?thesis by auto
  qed
qed

lemma sum_list_filter_le:
  "(\<And>x. x \<in> set xs \<Longrightarrow> 0 \<le> (f x :: real)) \<Longrightarrow> sum_list (map f (filter P xs)) \<le> sum_list (map f xs)"
proof (induction xs)
  case Nil
  show ?case by simp
next
  case (Cons x xs)
  then have "sum_list (map f (filter P xs)) \<le> sum_list (map f xs)" and "0 \<le> f x" by simp_all
  then show ?case by simp
qed

subsection \<open>Facts about the node list of one floor\<close>

lemma extract_path_nodes_short:
  "length ps < 2 \<Longrightarrow> extract_path_nodes ps (Some js) sp fl uid = ([], uid)"
  by (simp add: extract_path_nodes_def)

lemma extract_path_nodes_facts:
  assumes len: "2 \<le> length ps" and nodes: "nodes = fst (extract_path_nodes ps (Some js) sp fl uid)"
  shows "sorted (map original_index nodes)"
    and "distinct (map node_id nodes)"
    and "\<forall>m \<in> set nodes. node_pos m = ps ! original_index m"
    and "nodes \<noteq> []"
    and "original_index (hd nodes) = 0"
    and "original_index (last nodes) = length ps - 1"
proof -
  define J where "J = j_index ` set js"
  define E where "E = emitted ps J sp [1..<length ps - 1] (ps ! 0)"
  define first where "first = mk_node uid (ps ! 0) ENDPOINT 0 fl"
  define mid where "mid = nodes_of ps J fl (Suc uid) E"
  define final where "final = mk_node (Suc uid + length E) (ps ! (length ps - 1)) ENDPOINT (length ps - 1) fl"
  have eq: "nodes = first # mid @ [final]"
    unfolding nodes first_def mid_def final_def E_def J_def
    using extract_path_nodes_eq [OF len, of js sp fl uid] by simp
  have first: "original_index first = 0" "node_pos first = ps ! 0" "node_id first = uid"
    by (simp_all add: first_def mk_node_def node_pos_def)
  have final: "original_index final = length ps - 1" "node_pos final = ps ! (length ps - 1)"
    "node_id final = Suc uid + length E"
    by (simp_all add: final_def mk_node_def node_pos_def)
  have mid_idx: "map original_index mid = E" unfolding mid_def by (rule nodes_of_index)
  have mid_ids: "map node_id mid = [Suc uid..<Suc uid + length E]" unfolding mid_def by (rule nodes_of_ids)
  have Esub: "set E \<subseteq> set [1..<length ps - 1]" unfolding E_def by (rule emitted_subset)
  have Esorted: "sorted E"
    unfolding E_def by (rule strict_sorted_imp_sorted, rule emitted_sorted) simp
  have idx: "map original_index nodes = 0 # E @ [length ps - 1]"
    by (simp add: eq first final mid_idx)
  show "sorted (map original_index nodes)"
    unfolding idx using Esorted Esub by (auto simp: sorted_append)
  have ids: "map node_id nodes = uid # [Suc uid..<Suc uid + length E] @ [Suc uid + length E]"
    by (simp add: eq first final mid_ids)
  show "distinct (map node_id nodes)" unfolding ids by auto
  show "\<forall>m \<in> set nodes. node_pos m = ps ! original_index m"
    unfolding eq using first final nodes_of_props [of _ ps J fl "Suc uid" E]
    by (auto simp: mid_def)
  show "nodes \<noteq> []" "original_index (hd nodes) = 0" "original_index (last nodes) = length ps - 1"
    unfolding eq using first final by simp_all
qed

lemma build_path_graph_edges:
  assumes g: "build_path_graph ps fl sp thr uid = ((nodes, edges), uid')"
  shows "nodes = fst (extract_path_nodes ps (Some (detect_junctions ps thr 3)) sp fl uid)"
    and "map edge_core edges =
           map (\<lambda>(n1, n2). (node_id n1, node_id n2,
                             calculate_path_distance ps (original_index n1) (original_index n2),
                             HORIZONTAL))
               (filter (\<lambda>(n1, n2). calculate_path_distance ps (original_index n1) (original_index n2) \<le> 3)
                       (zip nodes (tl nodes)))"
proof -
  show n: "nodes = fst (extract_path_nodes ps (Some (detect_junctions ps thr 3)) sp fl uid)"
    using g by (auto simp: build_path_graph_def split: prod.splits)
  have "\<exists>u. edges = fst (extract_path_edges nodes ps 3 u)"
    using g by (auto simp: build_path_graph_def split: prod.splits) (metis fst_conv)
  then obtain u where e: "edges = fst (extract_path_edges nodes ps 3 u)" ..
  show "map edge_core edges =
           map (\<lambda>(n1, n2). (node_id n1, node_id n2,
                             calculate_path_distance ps (original_index n1) (original_index n2),
                             HORIZONTAL))
               (filter (\<lambda>(n1, n2). calculate_path_distance ps (original_index n1) (original_index n2) \<le> 3)
                       (zip nodes (tl nodes)))"
  proof (cases "length ps < 2")
    case True
    then have "nodes = []" using n by (simp add: extract_path_nodes_short)
    then show ?thesis using e by (simp add: extract_path_edges_def)
  next
    case False
    then have len: "2 \<le> length ps" by simp
    note f = extract_path_nodes_facts [OF len n]
    have srt: "sort_key original_index nodes = nodes"
      using f(1) by (rule sort_key_id_if_sorted)
    show ?thesis
    proof (cases "length nodes < 2")
      case True
      then have "nodes = [] \<or> (\<exists>x. nodes = [x])" by (cases nodes) auto
      then show ?thesis using e True by (auto simp: extract_path_edges_def)
    next
      case F: False
      then show ?thesis
        unfolding e extract_path_edges_def srt using edge_scan_core [of ps 3 nodes "[]" u] by simp
    qed
  qed
qed

subsection \<open>Rounded path distance against the chord\<close>

lemma path_distance_running:
  "calculate_path_distance ps a b = running_sum (segment_norms ps a b) 0"
  by (simp add: calculate_path_distance_def running_sum_def segment_norms_def fold_map comp_def)

lemma segment_scan_running:
  "segment_scan ps acc = running_sum (segment_norms ps 0 (length ps - 1)) acc"
  by (simp add: segment_scan_def running_sum_def segment_norms_def fold_map comp_def)

lemma segment_norms_length: "length (segment_norms ps a b) = b - a"
  by (simp add: segment_norms_def)

lemma segment_norms_normal:
  assumes "well_scaled ps" "b < length ps"
  shows "\<forall>t \<in> set (segment_norms ps a b). normal_or_zero t"
  using assms segment_norm_lower(1) [of ps] by (auto simp: segment_norms_def)

lemma segment_norms_sum_lower:
  assumes ws: "well_scaled ps" and b: "b < length ps"
  shows "(1 - eps64) ^ 4 * path_length ps a b \<le> sum_list (segment_norms ps a b)"
proof -
  have "sum_list (map (\<lambda>i. (1 - eps64) ^ 4 * norm3 (sub3 (ps ! (i + 1)) (ps ! i))) [a..<b])
        \<le> sum_list (map (\<lambda>i. norm_f64 (sub_f64 (ps ! (i + 1)) (ps ! i))) [a..<b])"
  proof (rule sum_list_mono)
    fix i assume "i \<in> set [a..<b]"
    then have "i + 1 < length ps" using b by simp
    then show "(1 - eps64) ^ 4 * norm3 (sub3 (ps ! (i + 1)) (ps ! i))
               \<le> norm_f64 (sub_f64 (ps ! (i + 1)) (ps ! i))"
      by (rule segment_norm_lower(2) [OF ws])
  qed
  then show ?thesis by (simp add: path_length_def segment_norms_def sum_list_const_mult)
qed

lemma path_distance_lower:
  assumes ws: "well_scaled ps" and ab: "a \<le> b" and b: "b < length ps"
  shows "(1 - eps64) ^ (b - a + 4) * dist3 (ps ! a) (ps ! b) \<le> calculate_path_distance ps a b"
proof -
  define c where "c = 1 - eps64"
  have c: "0 < c" unfolding c_def using eps64_bounds by simp
  have "dist3 (ps ! a) (ps ! b) \<le> path_length ps a b" using ab by (rule chord_le_path)
  then have "c ^ 4 * dist3 (ps ! a) (ps ! b) \<le> c ^ 4 * path_length ps a b"
    using c by (intro mult_left_mono) simp_all
  also have "\<dots> \<le> sum_list (segment_norms ps a b)"
    unfolding c_def by (rule segment_norms_sum_lower [OF ws b])
  finally have "c ^ (b - a) * (c ^ 4 * dist3 (ps ! a) (ps ! b)) \<le> c ^ (b - a) * sum_list (segment_norms ps a b)"
    using c by (intro mult_left_mono) simp_all
  also have "\<dots> \<le> running_sum (segment_norms ps a b) 0"
    using running_sum_bounds(2) [OF segment_norms_normal [OF ws b, of a] normal_or_zero_0]
    by (simp add: c_def segment_norms_length)
  finally show ?thesis by (simp add: path_distance_running c_def power_add mult.assoc)
qed

lemma sorted_le_last:
  "sorted (map f xs) \<Longrightarrow> x \<in> set xs \<Longrightarrow> f x \<le> (f (last xs) :: nat)"
proof (induction xs)
  case Nil
  then show ?case by simp
next
  case (Cons y ys)
  then show ?case by (cases ys) auto
qed

text \<open>
  C8, up to rounding.  On a polyline whose coordinate steps are zero or of magnitude between
  \<open>2^(-500)\<close> and \<open>2^500\<close>, every edge that the graph builder emits for a floor is
  HORIZONTAL and joins two nodes of that floor's node list; its distance is the running binary64
  sum of the rounded segment lengths between the two node indices, and it is at least
  \<open>(1 - 2^(-53))^(k + 4)\<close> times the Euclidean distance between the positions of the two
  nodes, \<open>k\<close> being the number of segments between them.
\<close>

theorem horizontal_edge_chord_up_to_rounding:
  assumes g: "build_path_graph positions fl node_spacing angle_threshold uid = ((nodes, edges), uid')"
    and e: "e \<in> set edges"
    and ws: "well_scaled positions"
  shows "edge_type e = HORIZONTAL \<and>
         (\<exists>n1 \<in> set nodes. \<exists>n2 \<in> set nodes.
            node_id n1 = from_node_id e \<and> node_id n2 = to_node_id e) \<and>
         (\<forall>n1 \<in> set nodes. \<forall>n2 \<in> set nodes.
            node_id n1 = from_node_id e \<and> node_id n2 = to_node_id e \<longrightarrow>
            distance e = calculate_path_distance positions (original_index n1) (original_index n2) \<and>
            (1 - eps64) ^ (original_index n2 - original_index n1 + 4)
              * dist3 (node_pos n1) (node_pos n2) \<le> distance e)"
proof -
  note b = build_path_graph_edges [OF g]
  have "edge_core e \<in> set (map edge_core edges)" using e by simp
  then obtain a c where ac: "(a, c) \<in> set (zip nodes (tl nodes))"
    and core: "edge_core e = (node_id a, node_id c,
                 calculate_path_distance positions (original_index a) (original_index c), HORIZONTAL)"
    unfolding b(2) by auto
  have a: "a \<in> set nodes" using ac by (rule set_zip_leftD)
  have "c \<in> set (tl nodes)" using ac by (rule set_zip_rightD)
  then have c: "c \<in> set nodes" by (cases nodes) auto
  have len: "2 \<le> length positions"
  proof (rule ccontr)
    assume "\<not> 2 \<le> length positions"
    then have "nodes = []" using b(1) by (simp add: extract_path_nodes_short)
    with a show False by simp
  qed
  note f = extract_path_nodes_facts [OF len b(1)]
  have le: "original_index a \<le> original_index c" using zip_tl_sorted [OF f(1) ac] .
  have "original_index c \<le> original_index (last nodes)" using f(1) c by (rule sorted_le_last)
  then have cl: "original_index c < length positions" using f(6) len by simp
  have inj: "inj_on node_id (set nodes)" using f(2) by (simp add: distinct_map)
  have from_to: "from_node_id e = node_id a" "to_node_id e = node_id c"
    "distance e = calculate_path_distance positions (original_index a) (original_index c)"
    "edge_type e = HORIZONTAL"
    using core by (simp_all add: edge_core_def)
  have chord: "(1 - eps64) ^ (original_index c - original_index a + 4)
                 * dist3 (node_pos a) (node_pos c) \<le> distance e"
    using path_distance_lower [OF ws le cl] f(3) a c from_to(3) by simp
  have uniq: "n1 = a \<and> n2 = c"
    if "n1 \<in> set nodes" "n2 \<in> set nodes" "node_id n1 = from_node_id e" "node_id n2 = to_node_id e"
    for n1 n2
    using that from_to(1,2) a c inj by (auto dest: inj_onD)
  show ?thesis
  proof (intro conjI ballI impI)
    show "edge_type e = HORIZONTAL" by (rule from_to(4))
  next
    have "node_id a = from_node_id e \<and> node_id c = to_node_id e" using from_to(1,2) by simp
    with a c show "\<exists>n1 \<in> set nodes. \<exists>n2 \<in> set nodes.
                     node_id n1 = from_node_id e \<and> node_id n2 = to_node_id e"
      by (intro bexI [of _ a] bexI [of _ c])
  next
    fix n1 n2
    assume "n1 \<in> set nodes" "n2 \<in> set nodes"
      and "node_id n1 = from_node_id e \<and> node_id n2 = to_node_id e"
    then have "n1 = a \<and> n2 = c" using uniq by blast
    then show "distance e = calculate_path_distance positions (original_index n1) (original_index n2)"
      using from_to(3) by simp
  next
    fix n1 n2
    assume "n1 \<in> set nodes" "n2 \<in> set nodes"
      and "node_id n1 = from_node_id e \<and> node_id n2 = to_node_id e"
    then have "n1 = a \<and> n2 = c" using uniq by blast
    then show "(1 - eps64) ^ (original_index n2 - original_index n1 + 4)
              * dist3 (node_pos n1) (node_pos n2) \<le> distance e" using chord by simp
  qed
qed

subsection \<open>The distance fields of the result\<close>

lemma segment_sum_add:
  assumes "a \<le> b" "b \<le> c"
  shows "sum_list (segment_norms ps a b) + sum_list (segment_norms ps b c)
         = sum_list (segment_norms ps a c)"
proof -
  obtain k where c: "c = b + k" using assms(2) by (metis le_add_diff_inverse)
  show ?thesis unfolding segment_norms_def c upt_add_eq_append [OF assms(1)] by simp
qed

lemma segment_telescope:
  "sorted (map original_index ns) \<Longrightarrow> ns \<noteq> [] \<Longrightarrow>
   sum_list (map (\<lambda>(n1, n2). sum_list (segment_norms ps (original_index n1) (original_index n2)))
                 (zip ns (tl ns)))
   = sum_list (segment_norms ps (original_index (hd ns)) (original_index (last ns)))"
proof (induction ns)
  case Nil
  then show ?case by simp
next
  case (Cons x xs)
  show ?case
  proof (cases xs)
    case Nil
    then show ?thesis by (simp add: segment_norms_def)
  next
    case (Cons y ys)
    have s: "sorted (map original_index xs)" using Cons.prems(1) by simp
    have xy: "original_index x \<le> original_index y" using Cons.prems(1) Cons by simp
    have yl: "original_index y \<le> original_index (last xs)"
      using Cons.prems(1) Cons by (auto simp: last_conv_nth)
    have "sum_list (map (\<lambda>(n1, n2). sum_list (segment_norms ps (original_index n1) (original_index n2)))
                 (zip (x # xs) (tl (x # xs))))
          = sum_list (segment_norms ps (original_index x) (original_index y))
            + sum_list (segment_norms ps (original_index y) (original_index (last xs)))"
      using Cons.IH [OF s] Cons by simp
    also have "\<dots> = sum_list (segment_norms ps (original_index x) (original_index (last xs)))"
      by (rule segment_sum_add [OF xy yl])
    finally show ?thesis using Cons by simp
  qed
qed

lemma sum_list_filter_split:
  "sum_list (map f xs) = sum_list (map f (filter P xs)) + sum_list (map f (filter (\<lambda>x. \<not> P x) xs))"
  for f :: "'a \<Rightarrow> real"
  by (induction xs) simp_all

lemma member_le_sum_list_real:
  "x \<in> set xs \<Longrightarrow> (\<And>y. y \<in> set xs \<Longrightarrow> 0 \<le> f y) \<Longrightarrow> f x \<le> sum_list (map f xs)"
  for f :: "'a \<Rightarrow> real"
proof (induction xs)
  case Nil
  then show ?case by simp
next
  case (Cons y ys)
  have nn: "0 \<le> sum_list (map f ys)" using Cons.prems(2) by (intro sum_list_nonneg) auto
  show ?case
  proof (cases "x = y")
    case True
    then show ?thesis using nn by simp
  next
    case False
    then have "x \<in> set ys" using Cons.prems(1) by simp
    then have "f x \<le> sum_list (map f ys)" using Cons.prems(2) by (intro Cons.IH) auto
    moreover have "0 \<le> f y" using Cons.prems(2) by simp
    ultimately show ?thesis by simp
  qed
qed

lemma segment_sum_nonneg:
  assumes "well_scaled ps" "b < length ps"
  shows "0 \<le> sum_list (segment_norms ps a b)"
  using segment_norms_normal [OF assms, of a] normal_or_zero_nonneg
  by (intro sum_list_nonneg) blast

lemma path_distance_between:
  assumes ws: "well_scaled ps" and b: "b < length ps" and m: "b - a \<le> M"
  shows "(1 - eps64) ^ M * sum_list (segment_norms ps a b) \<le> calculate_path_distance ps a b"
    and "calculate_path_distance ps a b \<le> (1 + eps64) ^ M * sum_list (segment_norms ps a b)"
proof -
  note nz = segment_norms_normal [OF ws b, of a]
  note X = segment_sum_nonneg [OF ws b, of a]
  have "(1 - eps64) ^ M \<le> (1 - eps64) ^ (b - a)"
    using m eps64_bounds by (intro power_decreasing) simp_all
  then have "(1 - eps64) ^ M * sum_list (segment_norms ps a b)
             \<le> (1 - eps64) ^ (b - a) * sum_list (segment_norms ps a b)"
    using X by (rule mult_right_mono)
  also have "\<dots> \<le> running_sum (segment_norms ps a b) 0"
    using running_sum_bounds(2) [OF nz normal_or_zero_0] by (simp add: segment_norms_length)
  finally show "(1 - eps64) ^ M * sum_list (segment_norms ps a b) \<le> calculate_path_distance ps a b"
    by (simp add: path_distance_running)
  have "(1 + eps64) ^ (b - a) \<le> (1 + eps64) ^ M"
    using m eps64_bounds by (intro power_increasing) simp_all
  then have "(1 + eps64) ^ (b - a) * sum_list (segment_norms ps a b)
             \<le> (1 + eps64) ^ M * sum_list (segment_norms ps a b)"
    using X by (rule mult_right_mono)
  moreover have "running_sum (segment_norms ps a b) 0
                 \<le> (1 + eps64) ^ (b - a) * sum_list (segment_norms ps a b)"
    using running_sum_bounds(3) [OF nz normal_or_zero_0] by (simp add: segment_norms_length)
  ultimately show "calculate_path_distance ps a b \<le> (1 + eps64) ^ M * sum_list (segment_norms ps a b)"
    by (simp add: path_distance_running)
qed


lemma floor_graph_account:
  assumes g: "build_path_graph ps fl sp thr uid = ((nodes, edges), uid')"
    and ws: "well_scaled ps" and mb: "length ps - 1 \<le> M"
  shows "\<forall>e \<in> set edges. edge_type e = HORIZONTAL"
    and "if length ps < 2 then nodes = [] \<and> edges = [] else length edges + 1 \<le> length nodes"
    and "\<exists>C. 0 \<le> C \<and> C \<le> sum_list (segment_norms ps 0 (length ps - 1)) \<and>
             (1 - eps64) ^ M * C \<le> sum_list (map distance edges) \<and>
             sum_list (map distance edges) \<le> (1 + eps64) ^ M * C \<and>
             (length ps < 2 \<or> length edges + 1 = length nodes
                \<longrightarrow> C = sum_list (segment_norms ps 0 (length ps - 1))) \<and>
             (length edges + 1 < length nodes
                \<longrightarrow> (1 + eps64) ^ M * C + 3 < (1 + eps64) ^ M * sum_list (segment_norms ps 0 (length ps - 1)))"
proof -
  note b = build_path_graph_edges [OF g]
  define pairs where "pairs = zip nodes (tl nodes)"
  define d :: "path_node \<times> path_node \<Rightarrow> real"
    where "d = (\<lambda>(n1, n2). calculate_path_distance ps (original_index n1) (original_index n2))"
  define X :: "path_node \<times> path_node \<Rightarrow> real"
    where "X = (\<lambda>(n1, n2). sum_list (segment_norms ps (original_index n1) (original_index n2)))"
  define ok where "ok = (\<lambda>p. d p \<le> 3)"
  define S where "S = sum_list (segment_norms ps 0 (length ps - 1))"
  define lo where "lo = (1 - eps64) ^ M"
  define hi where "hi = (1 + eps64) ^ M"
  have lo: "0 \<le> lo" and hi: "0 < hi" unfolding lo_def hi_def using eps64_bounds by simp_all
  have core: "map edge_core edges =
      map (\<lambda>p. (node_id (fst p), node_id (snd p), d p, HORIZONTAL)) (filter ok pairs)"
    unfolding b(2) pairs_def ok_def d_def by (simp add: case_prod_unfold)
  have "map distance edges = map (\<lambda>c. fst (snd (snd c))) (map edge_core edges)"
    by (simp add: edge_core_def)
  also have "\<dots> = map d (filter ok pairs)" unfolding core by (simp add: comp_def)
  finally have de: "map distance edges = map d (filter ok pairs)" .
  have "map edge_type edges = map (\<lambda>c. snd (snd (snd c))) (map edge_core edges)"
    by (simp add: edge_core_def)
  also have "\<dots> = map (\<lambda>p. HORIZONTAL) (filter ok pairs)" unfolding core by (simp add: comp_def)
  finally have "set (map edge_type edges) \<subseteq> {HORIZONTAL}" by auto
  then show "\<forall>e \<in> set edges. edge_type e = HORIZONTAL" by auto
  have "length (map edge_core edges) = length (filter ok pairs)" unfolding core by simp
  then have le: "length edges = length (filter ok pairs)" by simp
  have lp: "length pairs = length nodes - 1" by (simp add: pairs_def)
  have split: "length (filter ok pairs) + length (filter (\<lambda>p. \<not> ok p) pairs) = length pairs"
    by (rule sum_length_filter_compl)
  show "if length ps < 2 then nodes = [] \<and> edges = [] else length edges + 1 \<le> length nodes"
  proof (cases "length ps < 2")
    case True
    then have "nodes = []" using b(1) by (simp add: extract_path_nodes_short)
    then show ?thesis using True le by (simp add: pairs_def)
  next
    case False
    then have len: "2 \<le> length ps" by simp
    note f = extract_path_nodes_facts [OF len b(1)]
    have ln: "length nodes = Suc (length nodes - 1)" using f(4) by (cases nodes) simp_all
    have "length edges + 1 \<le> length nodes" using le lp split ln by linarith
    then show ?thesis using False by simp
  qed
  show "\<exists>C. 0 \<le> C \<and> C \<le> sum_list (segment_norms ps 0 (length ps - 1)) \<and>
             (1 - eps64) ^ M * C \<le> sum_list (map distance edges) \<and>
             sum_list (map distance edges) \<le> (1 + eps64) ^ M * C \<and>
             (length ps < 2 \<or> length edges + 1 = length nodes
                \<longrightarrow> C = sum_list (segment_norms ps 0 (length ps - 1))) \<and>
             (length edges + 1 < length nodes
                \<longrightarrow> (1 + eps64) ^ M * C + 3 < (1 + eps64) ^ M * sum_list (segment_norms ps 0 (length ps - 1)))"
    unfolding S_def [symmetric] lo_def [symmetric] hi_def [symmetric]
  proof (cases "length ps < 2")
    case True
    then have n: "nodes = []" using b(1) by (simp add: extract_path_nodes_short)
    then have "edges = []" using le by (simp add: pairs_def)
    moreover have "S = 0" using True by (simp add: S_def segment_norms_def)
    ultimately show "\<exists>C. 0 \<le> C \<and> C \<le> S \<and> lo * C \<le> sum_list (map distance edges) \<and>
             sum_list (map distance edges) \<le> hi * C \<and>
             (length ps < 2 \<or> length edges + 1 = length nodes \<longrightarrow> C = S) \<and>
             (length edges + 1 < length nodes \<longrightarrow> hi * C + 3 < hi * S)"
      using n by (intro exI [of _ 0]) simp
  next
    case False
    then have len: "2 \<le> length ps" by simp
    note f = extract_path_nodes_facts [OF len b(1)]
    have ln: "length nodes = Suc (length nodes - 1)" using f(4) by (cases nodes) simp_all
    have pr: "original_index (fst p) \<le> original_index (snd p) \<and> original_index (snd p) < length ps"
      if "p \<in> set pairs" for p
    proof -
      obtain n1 n2 where p: "p = (n1, n2)" by (cases p)
      have z: "(n1, n2) \<in> set (zip nodes (tl nodes))" using that by (simp add: p pairs_def)
      have "n2 \<in> set (tl nodes)" using z by (rule set_zip_rightD)
      then have "n2 \<in> set nodes" by (cases nodes) auto
      then have "original_index n2 \<le> original_index (last nodes)" using f(1) by (intro sorted_le_last)
      then show ?thesis using zip_tl_sorted [OF f(1) z] f(6) len by (simp add: p)
    qed
    have Xnn: "0 \<le> X p" if "p \<in> set pairs" for p
      using pr [OF that] segment_sum_nonneg [OF ws] by (simp add: X_def case_prod_unfold)
    have dlo: "lo * X p \<le> d p" and dhi: "d p \<le> hi * X p" if "p \<in> set pairs" for p
    proof -
      have "original_index (snd p) - original_index (fst p) \<le> M" using pr [OF that] mb by arith
      with pr [OF that] show "lo * X p \<le> d p" "d p \<le> hi * X p"
        using path_distance_between [OF ws, of "original_index (snd p)" "original_index (fst p)" M]
        by (simp_all add: X_def d_def lo_def hi_def case_prod_unfold)
    qed
    define C where "C = sum_list (map X (filter ok pairs))"
    define D where "D = sum_list (map X (filter (\<lambda>p. \<not> ok p) pairs))"
    have C: "0 \<le> C" unfolding C_def using Xnn by (intro sum_list_nonneg) auto
    have D: "0 \<le> D" unfolding D_def using Xnn by (intro sum_list_nonneg) auto
    have "sum_list (map X pairs) = sum_list (segment_norms ps (original_index (hd nodes)) (original_index (last nodes)))"
      unfolding X_def pairs_def by (rule segment_telescope [OF f(1) f(4)])
    then have tel: "sum_list (map X pairs) = S" by (simp add: f(5) f(6) S_def)
    have S: "S = C + D" unfolding tel [symmetric] C_def D_def by (rule sum_list_filter_split)
    have "sum_list (map (\<lambda>p. lo * X p) (filter ok pairs)) \<le> sum_list (map d (filter ok pairs))"
      using dlo by (intro sum_list_mono) simp
    then have e1: "lo * C \<le> sum_list (map distance edges)"
      by (simp add: de C_def sum_list_const_mult)
    have "sum_list (map d (filter ok pairs)) \<le> sum_list (map (\<lambda>p. hi * X p) (filter ok pairs))"
      using dhi by (intro sum_list_mono) simp
    then have e2: "sum_list (map distance edges) \<le> hi * C"
      by (simp add: de C_def sum_list_const_mult)
    have eq: "C = S" if "length edges + 1 = length nodes"
    proof -
      have "length (filter (\<lambda>p. \<not> ok p) pairs) = 0" using that le lp split ln by linarith
      then have "D = 0" by (simp add: D_def)
      then show ?thesis using S by simp
    qed
    have strict: "hi * C + 3 < hi * S" if "length edges + 1 < length nodes"
    proof -
      have "0 < length (filter (\<lambda>p. \<not> ok p) pairs)" using that le lp split ln by linarith
      then obtain p0 where p0: "p0 \<in> set (filter (\<lambda>p. \<not> ok p) pairs)"
        by (metis length_greater_0_conv last_in_set)
      then have mem: "p0 \<in> set pairs" and bad: "3 < d p0" by (simp_all add: ok_def)
      have "X p0 \<le> D" unfolding D_def using p0 Xnn by (intro member_le_sum_list_real) auto
      then have "hi * X p0 \<le> hi * D" using hi by (intro mult_left_mono) simp_all
      then have "3 < hi * D" using bad dhi [OF mem] by linarith
      then show ?thesis unfolding S by (simp add: algebra_simps)
    qed
    show "\<exists>C. 0 \<le> C \<and> C \<le> S \<and> lo * C \<le> sum_list (map distance edges) \<and>
             sum_list (map distance edges) \<le> hi * C \<and>
             (length ps < 2 \<or> length edges + 1 = length nodes \<longrightarrow> C = S) \<and>
             (length edges + 1 < length nodes \<longrightarrow> hi * C + 3 < hi * S)"
      using C D S e1 e2 eq strict False by (intro exI [of _ C]) simp
  qed
qed

lemma running_sum_append: "running_sum (xs @ ys) acc = running_sum ys (running_sum xs acc)"
  by (simp add: running_sum_def)

lemma floor_path_scan_running:
  "\<forall>(level, positions) \<in> set floors. positions \<noteq> [] \<Longrightarrow>
   floor_path_scan floors acc = Inr (running_sum (all_segment_norms floors) acc)"
proof (induction floors arbitrary: acc)
  case Nil
  show ?case by (simp add: all_segment_norms_def running_sum_def)
next
  case (Cons f rest)
  obtain level ps where f: "f = (level, ps)" by (cases f)
  have ps: "ps \<noteq> []" and rest: "\<forall>(level, positions) \<in> set rest. positions \<noteq> []"
    using Cons.prems by (auto simp: f)
  have "all_segment_norms (f # rest) = segment_norms ps 0 (length ps - 1) @ all_segment_norms rest"
    by (simp add: all_segment_norms_def f)
  then show ?case
    using ps Cons.IH [OF rest, of "segment_scan ps acc"]
    by (simp add: f running_sum_append segment_scan_running)
qed

lemma all_segment_norms_length: "length (all_segment_norms floors) = segment_total floors"
  by (induction floors) (auto simp: all_segment_norms_def segment_total_def segment_norms_length)

lemma all_segment_norms_normal:
  "\<forall>(level, positions) \<in> set floors. positions \<noteq> [] \<and> well_scaled positions \<Longrightarrow>
   \<forall>t \<in> set (all_segment_norms floors). normal_or_zero t"
proof (induction floors)
  case Nil
  show ?case by (simp add: all_segment_norms_def)
next
  case (Cons f rest)
  obtain level ps where f: "f = (level, ps)" by (cases f)
  have ps: "ps \<noteq> []" "well_scaled ps"
    and rest: "\<forall>(level, positions) \<in> set rest. positions \<noteq> [] \<and> well_scaled positions"
    using Cons.prems by (auto simp: f)
  have "length ps - 1 < length ps" using ps(1) by simp
  then have "\<forall>t \<in> set (segment_norms ps 0 (length ps - 1)). normal_or_zero t"
    by (rule segment_norms_normal [OF ps(2)])
  moreover have "all_segment_norms (f # rest) = segment_norms ps 0 (length ps - 1) @ all_segment_norms rest"
    by (simp add: all_segment_norms_def f)
  ultimately show ?case using Cons.IH [OF rest] by auto
qed

lemma vertical_not_horizontal: "vertical_edge_kind t \<noteq> HORIZONTAL"
  by (cases t) (simp_all add: vertical_edge_kind_def)

lemma passage_scan_horizontal:
  "filter (\<lambda>e. edge_type e = HORIZONTAL) (fst (passage_scan all_nodes passages (edges, uid)))
   = filter (\<lambda>e. edge_type e = HORIZONTAL) edges"
proof (induction passages arbitrary: edges uid)
  case Nil
  show ?case by simp
next
  case (Cons p rest)
  show ?case
  proof (cases "find_nearest_node_to_position all_nodes (entry_point p) (from_floor p)")
    case None
    then show ?thesis using Cons.IH [of edges uid] by simp
  next
    case (Some entry_node)
    show ?thesis
    proof (cases "find_nearest_node_to_position all_nodes (exit_point p) (to_floor p)")
      case None
      then show ?thesis using Some Cons.IH [of edges uid] by simp
    next
      case S2: (Some exit_node)
      show ?thesis
        using Some S2
          Cons.IH [of "edges @ [\<lparr>edge_id = uid, from_node_id = node_id entry_node,
                           to_node_id = node_id exit_node, distance = z_displacement p,
                           is_bidirectional = True,
                           edge_type = vertical_edge_kind (passage_type p)\<rparr>]" "uid + 1"]
        by (simp add: vertical_not_horizontal)
    qed
  qed
qed

lemma floor_graphs_account:
  assumes "build_floor_graphs floors uid = (graphs, uid')"
    and "\<forall>(level, positions) \<in> set floors. well_scaled positions \<and> length positions - 1 \<le> M"
  shows "\<forall>e \<in> set (concat (map (\<lambda>(level, nodes, edges). edges) graphs)). edge_type e = HORIZONTAL"
    and "length (concat (map (\<lambda>(level, nodes, edges). edges) graphs)) + walkable_floors floors
         \<le> length (concat (map (\<lambda>(level, nodes, edges). nodes) graphs))"
    and "\<exists>C. 0 \<le> C \<and> C \<le> sum_list (all_segment_norms floors) \<and>
           (1 - eps64) ^ M * C
             \<le> sum_list (map distance (concat (map (\<lambda>(level, nodes, edges). edges) graphs))) \<and>
           sum_list (map distance (concat (map (\<lambda>(level, nodes, edges). edges) graphs)))
             \<le> (1 + eps64) ^ M * C \<and>
           (length (concat (map (\<lambda>(level, nodes, edges). edges) graphs)) + walkable_floors floors
              = length (concat (map (\<lambda>(level, nodes, edges). nodes) graphs))
            \<longrightarrow> C = sum_list (all_segment_norms floors)) \<and>
           (length (concat (map (\<lambda>(level, nodes, edges). edges) graphs)) + walkable_floors floors
              < length (concat (map (\<lambda>(level, nodes, edges). nodes) graphs))
            \<longrightarrow> (1 + eps64) ^ M * C + 3 < (1 + eps64) ^ M * sum_list (all_segment_norms floors))"
proof -
  define lo where "lo = (1 - eps64) ^ M"
  define hi where "hi = (1 + eps64) ^ M"
  have hi: "0 < hi" unfolding hi_def using eps64_bounds by simp
  define Es where "Es = (\<lambda>graphs :: (int \<times> path_node list \<times> path_edge list) list.
                           concat (map (\<lambda>(level, nodes, edges). edges) graphs))"
  define Ns where "Ns = (\<lambda>graphs :: (int \<times> path_node list \<times> path_edge list) list.
                           concat (map (\<lambda>(level, nodes, edges). nodes) graphs))"
  have "(\<forall>e \<in> set (Es graphs). edge_type e = HORIZONTAL) \<and>
        length (Es graphs) + walkable_floors floors \<le> length (Ns graphs) \<and>
        (\<exists>C. 0 \<le> C \<and> C \<le> sum_list (all_segment_norms floors) \<and>
           lo * C \<le> sum_list (map distance (Es graphs)) \<and>
           sum_list (map distance (Es graphs)) \<le> hi * C \<and>
           (length (Es graphs) + walkable_floors floors = length (Ns graphs)
            \<longrightarrow> C = sum_list (all_segment_norms floors)) \<and>
           (length (Es graphs) + walkable_floors floors < length (Ns graphs)
            \<longrightarrow> hi * C + 3 < hi * sum_list (all_segment_norms floors)))"
    using assms
  proof (induction floors arbitrary: uid graphs uid')
    case Nil
    then show ?case
      by (auto simp: Es_def Ns_def walkable_floors_def all_segment_norms_def)
  next
    case (Cons f rest)
    obtain level ps where f: "f = (level, ps)" by (cases f)
    obtain nodes edges u1 where g: "build_path_graph ps (Some level) 1 45 uid = ((nodes, edges), u1)"
      by (metis prod.exhaust)
    obtain gs u2 where r: "build_floor_graphs rest u1 = (gs, u2)" by (metis prod.exhaust)
    have graphs: "graphs = (level, nodes, edges) # gs"
      using Cons.prems(1) by (simp add: f g r)
    have ws: "well_scaled ps" and mb: "length ps - 1 \<le> M"
      and rest: "\<forall>(level, positions) \<in> set rest. well_scaled positions \<and> length positions - 1 \<le> M"
      using Cons.prems(2) by (auto simp: f)
    note A = floor_graph_account [OF g ws mb]
    from A(3) obtain C1 where C1: "0 \<le> C1" "C1 \<le> sum_list (segment_norms ps 0 (length ps - 1))"
      "lo * C1 \<le> sum_list (map distance edges)" "sum_list (map distance edges) \<le> hi * C1"
      "length ps < 2 \<or> length edges + 1 = length nodes
         \<Longrightarrow> C1 = sum_list (segment_norms ps 0 (length ps - 1))"
      "length edges + 1 < length nodes
         \<Longrightarrow> hi * C1 + 3 < hi * sum_list (segment_norms ps 0 (length ps - 1))"
      unfolding lo_def hi_def by blast
    note IH = Cons.IH [OF r rest]
    from IH obtain C2 where C2: "0 \<le> C2" "C2 \<le> sum_list (all_segment_norms rest)"
      "lo * C2 \<le> sum_list (map distance (Es gs))" "sum_list (map distance (Es gs)) \<le> hi * C2"
      "length (Es gs) + walkable_floors rest = length (Ns gs)
         \<Longrightarrow> C2 = sum_list (all_segment_norms rest)"
      "length (Es gs) + walkable_floors rest < length (Ns gs)
         \<Longrightarrow> hi * C2 + 3 < hi * sum_list (all_segment_norms rest)"
      by blast
    have le2: "length (Es gs) + walkable_floors rest \<le> length (Ns gs)" using IH by simp
    define w where "w = (if 2 \<le> length ps then 1 else 0 :: nat)"
    have le1: "length edges + w \<le> length nodes" using A(2) by (auto simp: w_def)
    have eq1: "C1 = sum_list (segment_norms ps 0 (length ps - 1))" if "length edges + w = length nodes"
      using that C1(5) by (auto simp: w_def split: if_splits)
    have lt1: "hi * C1 + 3 < hi * sum_list (segment_norms ps 0 (length ps - 1))"
      if "length edges + w < length nodes"
      using that C1(6) A(2) by (auto simp: w_def split: if_splits)
    have Es: "Es graphs = edges @ Es gs" and Ns: "Ns graphs = nodes @ Ns gs"
      by (simp_all add: Es_def Ns_def graphs)
    have wf: "walkable_floors (f # rest) = w + walkable_floors rest"
      by (simp add: walkable_floors_def f w_def)
    have asn: "sum_list (all_segment_norms (f # rest))
               = sum_list (segment_norms ps 0 (length ps - 1)) + sum_list (all_segment_norms rest)"
      by (simp add: all_segment_norms_def f)
    define S1 where "S1 = sum_list (segment_norms ps 0 (length ps - 1))"
    define S2 where "S2 = sum_list (all_segment_norms rest)"
    note C1' = C1 [folded S1_def] and C2' = C2 [folded S2_def]
    note eq1' = eq1 [folded S1_def] and lt1' = lt1 [folded S1_def]
    have h1: "\<forall>e \<in> set (Es graphs). edge_type e = HORIZONTAL"
      unfolding Es using A(1) IH by auto
    have h2: "length (Es graphs) + walkable_floors (f # rest) \<le> length (Ns graphs)"
      unfolding Es Ns wf using le1 le2 by simp
    have b1: "lo * (C1 + C2) \<le> sum_list (map distance (Es graphs))"
      unfolding Es using C1(3) C2(3) by (simp add: algebra_simps)
    have b2: "sum_list (map distance (Es graphs)) \<le> hi * (C1 + C2)"
      unfolding Es using C1(4) C2(4) by (simp add: algebra_simps)
    have b3: "C1 + C2 = S1 + S2"
      if "length (Es graphs) + walkable_floors (f # rest) = length (Ns graphs)"
    proof -
      from that have "length edges + w = length nodes" "length (Es gs) + walkable_floors rest = length (Ns gs)"
        using le1 le2 unfolding Es Ns wf by simp_all
      then show ?thesis using eq1' C2'(5) by simp
    qed
    have b4: "hi * (C1 + C2) + 3 < hi * (S1 + S2)"
      if "length (Es graphs) + walkable_floors (f # rest) < length (Ns graphs)"
    proof -
      from that consider "length edges + w < length nodes"
        | "length (Es gs) + walkable_floors rest < length (Ns gs)"
        using le1 le2 unfolding Es Ns wf by fastforce
      then show ?thesis
      proof cases
        case 1
        have "hi * C2 \<le> hi * S2" using C2'(2) hi by (intro mult_left_mono) simp_all
        then show ?thesis using lt1' [OF 1] by (simp add: algebra_simps)
      next
        case 2
        have "hi * C1 \<le> hi * S1" using C1'(2) hi by (intro mult_left_mono) simp_all
        then show ?thesis using C2'(6) [OF 2] by (simp add: algebra_simps)
      qed
    qed
    have "0 \<le> C1 + C2" "C1 + C2 \<le> S1 + S2" using C1'(1,2) C2'(1,2) by simp_all
    then show ?case
      using h1 h2 b1 b2 b3 b4 unfolding asn S1_def [symmetric] S2_def [symmetric]
      by (intro conjI exI [of _ "C1 + C2"]) simp_all
  qed
  then show "\<forall>e \<in> set (concat (map (\<lambda>(level, nodes, edges). edges) graphs)). edge_type e = HORIZONTAL"
    and "length (concat (map (\<lambda>(level, nodes, edges). edges) graphs)) + walkable_floors floors
         \<le> length (concat (map (\<lambda>(level, nodes, edges). nodes) graphs))"
    and "\<exists>C. 0 \<le> C \<and> C \<le> sum_list (all_segment_norms floors) \<and>
           (1 - eps64) ^ M * C
             \<le> sum_list (map distance (concat (map (\<lambda>(level, nodes, edges). edges) graphs))) \<and>
           sum_list (map distance (concat (map (\<lambda>(level, nodes, edges). edges) graphs)))
             \<le> (1 + eps64) ^ M * C \<and>
           (length (concat (map (\<lambda>(level, nodes, edges). edges) graphs)) + walkable_floors floors
              = length (concat (map (\<lambda>(level, nodes, edges). nodes) graphs))
            \<longrightarrow> C = sum_list (all_segment_norms floors)) \<and>
           (length (concat (map (\<lambda>(level, nodes, edges). edges) graphs)) + walkable_floors floors
              < length (concat (map (\<lambda>(level, nodes, edges). nodes) graphs))
            \<longrightarrow> (1 + eps64) ^ M * C + 3 < (1 + eps64) ^ M * sum_list (all_segment_norms floors))"
    unfolding Es_def Ns_def lo_def hi_def by simp_all
qed

lemma segment_count_le_total:
  "(level, positions) \<in> set floors \<Longrightarrow> length positions - 1 \<le> segment_total floors"
proof -
  assume "(level, positions) \<in> set floors"
  then have "length positions - 1 \<in> set (map (\<lambda>(level, positions). length positions - 1) floors)"
    by force
  then show ?thesis unfolding segment_total_def by (intro member_le_sum_list) simp_all
qed

text \<open>
  C2, as amended.  Whenever every floor polyline holds at least one point and has coordinate steps
  that are zero or of magnitude between \<open>2^(-500)\<close> and \<open>2^500\<close>, the result document is
  produced, its nodes and edges are those of the merged graph, and its \<open>total_distance\<close> is
  the running binary64 sum of the rounded segment lengths of all floor polylines.  With \<open>M\<close>
  the number of these segments, \<open>E\<close> the sum of the distances of the HORIZONTAL edges and
  \<open>T\<close> the \<open>total_distance\<close>:
  \<^item> \<open>E\<close> does not exceed \<open>T\<close> beyond rounding: \<open>(1 - 2^(-53))^M * E \<le> (1 + 2^(-53))^M * T\<close>;
  \<^item> when no edge was dropped, that is when every floor with at least two points has one
    HORIZONTAL edge less than it has nodes, \<open>T\<close> does not exceed \<open>E\<close> beyond rounding either;
  \<^item> when an edge was dropped for exceeding the connection radius of 3 m, \<open>E\<close> falls short of
    \<open>T\<close> by more than 3 m, up to rounding: \<open>(1 - 2^(-53))^M * (E + 3) < (1 + 2^(-53))^M * T\<close>.
\<close>

theorem total_distance_and_edge_sum:
  assumes fl: "\<forall>(level, positions) \<in> set smoothed_floors. positions \<noteq> [] \<and> well_scaled positions"
  shows "\<exists>res. pipeline_result raw_positions smoothed_floors vertical_passages uid = Inr res \<and>
           path_nodes res = fst (graph_stage smoothed_floors vertical_passages uid) \<and>
           path_edges res = snd (graph_stage smoothed_floors vertical_passages uid) \<and>
           total_distance res = running_sum (all_segment_norms smoothed_floors) 0 \<and>
           horizontal_count (path_edges res) + walkable_floors smoothed_floors
             \<le> length (path_nodes res) \<and>
           (1 - eps64) ^ segment_total smoothed_floors * horizontal_distance (path_edges res)
             \<le> (1 + eps64) ^ segment_total smoothed_floors * total_distance res \<and>
           (horizontal_count (path_edges res) + walkable_floors smoothed_floors
              = length (path_nodes res) \<longrightarrow>
            (1 - eps64) ^ segment_total smoothed_floors * total_distance res
              \<le> (1 + eps64) ^ segment_total smoothed_floors * horizontal_distance (path_edges res)) \<and>
           (horizontal_count (path_edges res) + walkable_floors smoothed_floors
              < length (path_nodes res) \<longrightarrow>
            (1 - eps64) ^ segment_total smoothed_floors * (horizontal_distance (path_edges res) + 3)
              < (1 + eps64) ^ segment_total smoothed_floors * total_distance res)"
proof -
  define M where "M = segment_total smoothed_floors"
  define lo where "lo = (1 - eps64) ^ M"
  define hi where "hi = (1 + eps64) ^ M"
  have lo: "0 < lo" and hi: "0 < hi" unfolding lo_def hi_def using eps64_bounds by simp_all
  obtain graphs u1 where b: "build_floor_graphs smoothed_floors uid = (graphs, u1)"
    by (metis prod.exhaust)
  define Es where "Es = concat (map (\<lambda>(level, nodes, edges). edges) graphs)"
  define Ns where "Ns = concat (map (\<lambda>(level, nodes, edges). nodes) graphs)"
  define S where "S = sum_list (all_segment_norms smoothed_floors)"
  define T where "T = running_sum (all_segment_norms smoothed_floors) 0"
  have ne: "\<forall>(level, positions) \<in> set smoothed_floors. positions \<noteq> []" using fl by auto
  have wm: "\<forall>(level, positions) \<in> set smoothed_floors. well_scaled positions \<and> length positions - 1 \<le> M"
    using fl segment_count_le_total unfolding M_def by auto
  note A = floor_graphs_account [OF b wm, folded Es_def Ns_def S_def lo_def hi_def]
  from A(3) obtain C where C: "0 \<le> C" "C \<le> S" "lo * C \<le> sum_list (map distance Es)"
    "sum_list (map distance Es) \<le> hi * C"
    "length Es + walkable_floors smoothed_floors = length Ns \<Longrightarrow> C = S"
    "length Es + walkable_floors smoothed_floors < length Ns \<Longrightarrow> hi * C + 3 < hi * S"
    by blast
  obtain all_nodes all_edges where
    gs: "graph_stage smoothed_floors vertical_passages uid = (all_nodes, all_edges)"
    by (metis prod.exhaust)
  have nodes: "all_nodes = Ns" and edges: "all_edges = fst (passage_scan Ns vertical_passages (Es, u1))"
    using gs by (auto simp: graph_stage_def b merge_floor_graphs_def Es_def Ns_def)
  have "filter (\<lambda>e. edge_type e = HORIZONTAL) Es = Es" using A(1) by simp
  then have hf: "filter (\<lambda>e. edge_type e = HORIZONTAL) all_edges = Es"
    unfolding edges passage_scan_horizontal by simp
  have E: "horizontal_distance all_edges = sum_list (map distance Es)"
    by (simp add: horizontal_distance_def hf)
  have H: "horizontal_count all_edges = length Es" by (simp add: horizontal_count_def hf)
  have scan: "floor_path_scan smoothed_floors 0 = Inr T"
    unfolding T_def by (rule floor_path_scan_running [OF ne])
  note nz = all_segment_norms_normal [OF fl]
  have Tlo: "lo * S \<le> T" and Thi: "T \<le> hi * S"
    using running_sum_bounds(2,3) [OF nz normal_or_zero_0]
    by (simp_all add: lo_def hi_def S_def T_def M_def all_segment_norms_length)
  define E where "E = sum_list (map distance Es)"
  note C' = C [folded E_def]
  have i1: "lo * E \<le> hi * T"
  proof -
    have "lo * E \<le> lo * (hi * C)" using C'(4) lo by (intro mult_left_mono) simp_all
    also have "\<dots> = hi * (lo * C)" by simp
    also have "\<dots> \<le> hi * (lo * S)" using C'(2) lo hi by (intro mult_left_mono) simp_all
    also have "\<dots> \<le> hi * T" using Tlo hi by (intro mult_left_mono) simp_all
    finally show ?thesis .
  qed
  have i2: "lo * T \<le> hi * E" if "length Es + walkable_floors smoothed_floors = length Ns"
  proof -
    have CS: "C = S" using that by (rule C'(5))
    have "lo * T \<le> lo * (hi * S)" using Thi lo by (intro mult_left_mono) simp_all
    also have "\<dots> = hi * (lo * C)" by (simp add: CS)
    also have "\<dots> \<le> hi * E" using C'(3) hi by (intro mult_left_mono) simp_all
    finally show ?thesis .
  qed
  have i3: "lo * (E + 3) < hi * T" if "length Es + walkable_floors smoothed_floors < length Ns"
  proof -
    have "lo * (E + 3) \<le> lo * (hi * C + 3)" using C'(4) lo by (intro mult_left_mono) simp_all
    also have "\<dots> < lo * (hi * S)" using C'(6) [OF that] lo by (intro mult_strict_left_mono) simp_all
    also have "\<dots> = hi * (lo * S)" by simp
    also have "\<dots> \<le> hi * T" using Tlo hi by (intro mult_left_mono) simp_all
    finally show ?thesis .
  qed
  show ?thesis
    using A(2) i1 i2 i3
    unfolding M_def [symmetric] lo_def [symmetric] hi_def [symmetric] T_def [symmetric]
    by (simp add: pipeline_result_def build_processing_result_def scan gs nodes E H E_def)
qed

subsection \<open>Worked examples for the graph builder\<close>

lemma unit_norms: "norm3 (1, 0, 0) = 1" "norm3 (0, 1, 0) = 1"
  by (simp_all add: norm3_def sq3_def)

lemma angle_straight:
  "angle_between_vectors (1, 0, 0) (1, 0, 0) = 0" "angle_between_vectors (0, 1, 0) (0, 1, 0) = 0"
  by (simp_all add: angle_between_vectors_def unit_norms dot3_def)

lemma angle_right: "angle_between_vectors (1, 0, 0) (0, 1, 0) = 90"
  by (simp add: angle_between_vectors_def unit_norms dot3_def)

lemma corner_junctions:
  "detect_junctions corner_polyline 45 3 = [\<lparr>j_index = 3, j_position = (3, 0, 0), angle_change = 90\<rparr>]"
  by (simp add: detect_junctions_def junction_candidates_def corner_polyline_def
        merge_nearby_junctions_def upt_conv_Cons sub3_def angle_straight angle_right)



subsection \<open>Worked examples for the edge distances\<close>

lemma float64_sqrt_nearest:
  assumes m: "2 ^ 52 < m" "m < 2 ^ 53" and k: "- 1074 \<le> k"
    and lo: "((real_of_int m - 1 / 2) * 2 powr real_of_int k)\<^sup>2 < x"
    and hi: "x < ((real_of_int m + 1 / 2) * 2 powr real_of_int k)\<^sup>2"
  shows "float64 (sqrt x) = real_of_int m * 2 powr real_of_int k"
proof -
  define c where "c = 2 powr real_of_int k"
  have c: "0 < c" by (simp add: c_def)
  have mp: "0 < real_of_int m - 1 / 2" using m(1) by simp
  have l: "(real_of_int m - 1 / 2) * c < sqrt x"
    using lo unfolding c_def [symmetric] by (rule real_less_rsqrt)
  have "0 \<le> (real_of_int m + 1 / 2) * c" using mp c by simp
  then have h: "sqrt x < (real_of_int m + 1 / 2) * c"
    using hi unfolding c_def [symmetric] by (intro real_less_lsqrt) simp_all
  have pos: "0 < sqrt x" using l mp c by (smt (verit) mult_pos_pos)
  have e1: "(real_of_int m - 1 / 2) * c = real_of_int m * c - c / 2"
    and e2: "(real_of_int m + 1 / 2) * c = real_of_int m * c + c / 2"
    by (simp_all add: algebra_simps)
  have "\<bar>sqrt x - real_of_int m * c\<bar> < c / 2"
    using l h unfolding e1 e2 by linarith
  then show ?thesis unfolding c_def by (rule float64_nearest [OF pos m k])
qed

lemma float64_dyadic:
  "float64 (1 / 8) = 1 / 8" "float64 (3 / 8) = 3 / 8" "float64 (1 / 64) = 1 / 64"
  "float64 (9 / 64) = 9 / 64" "float64 (1 / 32) = 1 / 32" "float64 (9 / 32) = 9 / 32"
  "float64 (1 / 2) = 1 / 2" "float64 (3 / 4) = 3 / 4" "float64 (9 / 16) = 9 / 16"
  "float64 (7 / 4) = 7 / 4" "float64 (1 / 4) = 1 / 4"
  using float64_exact [of "1 / 8" 1 "- 3"] float64_exact [of "3 / 8" 3 "- 3"]
    float64_exact [of "1 / 64" 1 "- 6"] float64_exact [of "9 / 64" 9 "- 6"]
    float64_exact [of "1 / 32" 1 "- 5"] float64_exact [of "9 / 32" 9 "- 5"]
    float64_exact [of "1 / 2" 1 "- 1"] float64_exact [of "3 / 4" 3 "- 2"]
    float64_exact [of "9 / 16" 9 "- 4"] float64_exact [of "7 / 4" 7 "- 2"]
    float64_exact [of "1 / 4" 1 "- 2"]
  by (simp_all add: powr_neg_numeral)

lemma sqrt_1_32: "float64 (sqrt (1 / 32)) = 6369051672525773 / 36028797018963968"
  using float64_sqrt_nearest [of 6369051672525773 "- 55" "1 / 32"]
  by (simp add: powr_neg_numeral power2_eq_square)

lemma sqrt_9_32: "float64 (sqrt (9 / 32)) = 4776788754394329 / 9007199254740992"
  using float64_sqrt_nearest [of 4776788754394329 "- 53" "9 / 32"]
  by (simp add: powr_neg_numeral power2_eq_square)

lemma diagonal_sum:
  "float64 (25476206690103089 / 36028797018963968) = 1592262918131443 / 2251799813685248"
  using float64_nearest [of "25476206690103089 / 36028797018963968" 6369051672525772 "- 53"]
  by (simp add: powr_neg_numeral)

lemma diagonal_first: "float64 (6369051672525773 / 36028797018963968) = 6369051672525773 / 36028797018963968"
  using float64_exact [of "6369051672525773 / 36028797018963968" 6369051672525773 "- 55"]
  by (simp add: powr_neg_numeral)

lemma diagonal_distance:
  "calculate_path_distance diagonal_polyline 0 2 = 1592262918131443 / 2251799813685248"
  by (simp add: calculate_path_distance_def diagonal_polyline_def upt_conv_Cons sub_f64_def
        norm_f64_def float64_zero float64_dyadic sqrt_1_32 sqrt_9_32 diagonal_first diagonal_sum)


lemma diagonal_graph:
  "build_path_graph diagonal_polyline (Some 1) 1 45 0 = ((diagonal_nodes, [diagonal_edge]), 3)"
proof -
  have n: "extract_path_nodes diagonal_polyline (Some (detect_junctions diagonal_polyline 45 3)) 1 (Some 1) 0
           = (diagonal_nodes, 2)"
    by (simp add: detect_junctions_def extract_path_nodes_def diagonal_polyline_def
          diagonal_nodes_def ev upt_conv_Cons mk_node_def)
  have s: "sort_key original_index diagonal_nodes = diagonal_nodes"
    by (simp add: diagonal_nodes_def mk_node_def)
  show ?thesis
    unfolding build_path_graph_def n
    by (simp add: extract_path_edges_def s)
       (simp add: diagonal_nodes_def diagonal_edge_def mk_node_def diagonal_distance)
qed

text \<open>
  C8 as stated fails.  On the polyline \<open>(0, 0, 0), (1/8, 1/8, 0), (1/2, 1/2, 0)\<close> the graph
  builder emits one edge between the two ENDPOINT nodes.  Its distance is the rounded sum of the
  rounded lengths \<open>sqrt (1/32)\<close> and \<open>sqrt (9/32)\<close>, which is
  \<open>6369051672525772 / 2^53\<close>, the binary64 number just below \<open>sqrt (1/2)\<close>, the Euclidean
  distance between the two nodes.
\<close>

theorem horizontal_edge_below_chord:
  "build_path_graph diagonal_polyline (Some 1) 1 45 0 = ((diagonal_nodes, [diagonal_edge]), 3) \<and>
   edge_type diagonal_edge = HORIZONTAL \<and>
   node_id (diagonal_nodes ! 0) = from_node_id diagonal_edge \<and>
   node_id (diagonal_nodes ! 1) = to_node_id diagonal_edge \<and>
   distance diagonal_edge < dist3 (node_pos (diagonal_nodes ! 0)) (node_pos (diagonal_nodes ! 1))"
proof -
  have "(1592262918131443 / 2251799813685248 :: real)\<^sup>2 < 1 / 2" by (simp add: power2_eq_square)
  then have "1592262918131443 / 2251799813685248 < sqrt (1 / 2)" by (rule real_less_rsqrt)
  moreover have "dist3 (node_pos (diagonal_nodes ! 0)) (node_pos (diagonal_nodes ! 1)) = sqrt (1 / 2)"
    by (simp add: diagonal_nodes_def mk_node_def node_pos_def dist3_def sub3_def norm3_def sq3_def)
  ultimately show ?thesis
    using diagonal_graph by (simp add: diagonal_nodes_def diagonal_edge_def mk_node_def)
qed

lemma sqrt_9_16: "sqrt (9 / 16) = 3 / 4"
  by (rule real_sqrt_unique) (simp_all add: power2_eq_square)

lemma cornered_distance: "calculate_path_distance cornered_polyline 0 2 = 7 / 4"
  by (simp add: calculate_path_distance_def cornered_polyline_def upt_conv_Cons sub_f64_def
        norm_f64_def float64_zero float64_one float64_dyadic sqrt_9_16)

lemma cornered_graph:
  "build_path_graph cornered_polyline (Some 1) 1 45 0 = ((cornered_nodes, [cornered_edge]), 3)"
proof -
  have n: "extract_path_nodes cornered_polyline (Some (detect_junctions cornered_polyline 45 3)) 1 (Some 1) 0
           = (cornered_nodes, 2)"
    by (simp add: detect_junctions_def extract_path_nodes_def cornered_polyline_def
          cornered_nodes_def ev upt_conv_Cons mk_node_def)
  have s: "sort_key original_index cornered_nodes = cornered_nodes"
    by (simp add: cornered_nodes_def mk_node_def)
  show ?thesis
    unfolding build_path_graph_def n
    by (simp add: extract_path_edges_def s)
       (simp add: cornered_nodes_def cornered_edge_def mk_node_def cornered_distance)
qed

lemma sqrt_25_16: "sqrt (25 / 16) = 5 / 4"
  by (rule real_sqrt_unique) (simp_all add: power2_eq_square)

text \<open>The theorem on the corner with legs \<open>3/4\<close> and \<open>1\<close>: the edge has distance
  \<open>7/4\<close> and its chord is \<open>5/4\<close>.\<close>

theorem horizontal_edge_chord_up_to_rounding_witness:
  "build_path_graph cornered_polyline (Some 1) 1 45 0 = ((cornered_nodes, [cornered_edge]), 3) \<and>
   cornered_edge \<in> set [cornered_edge] \<and> well_scaled cornered_polyline \<and>
   edge_type cornered_edge = HORIZONTAL \<and>
   node_id (cornered_nodes ! 0) = from_node_id cornered_edge \<and>
   node_id (cornered_nodes ! 1) = to_node_id cornered_edge \<and>
   distance cornered_edge = calculate_path_distance cornered_polyline 0 2 \<and>
   (1 - eps64) ^ 6 * dist3 (node_pos (cornered_nodes ! 0)) (node_pos (cornered_nodes ! 1))
     \<le> distance cornered_edge \<and>
   dist3 (node_pos (cornered_nodes ! 0)) (node_pos (cornered_nodes ! 1)) = 5 / 4 \<and>
   distance cornered_edge = 7 / 4"
proof -
  have e: "cornered_edge \<in> set [cornered_edge]" by simp
  have ws: "well_scaled cornered_polyline"
    by (simp add: well_scaled_def cornered_polyline_def sub3_def in_band_def upt_conv_Cons)
  have ids: "node_id (cornered_nodes ! 0) = from_node_id cornered_edge"
            "node_id (cornered_nodes ! 1) = to_node_id cornered_edge"
    by (simp_all add: cornered_nodes_def cornered_edge_def mk_node_def)
  have idx: "original_index (cornered_nodes ! 0) = 0" "original_index (cornered_nodes ! 1) = 2"
    "original_index (cornered_nodes ! Suc 0) = 2"
    by (simp_all add: cornered_nodes_def mk_node_def)
  have mem: "cornered_nodes ! 0 \<in> set cornered_nodes" "cornered_nodes ! 1 \<in> set cornered_nodes"
    by (simp_all add: cornered_nodes_def)
  have d: "dist3 (node_pos (cornered_nodes ! 0)) (node_pos (cornered_nodes ! 1)) = 5 / 4"
    by (simp add: cornered_nodes_def mk_node_def node_pos_def dist3_def sub3_def norm3_def sq3_def
          sqrt_25_16)
  from horizontal_edge_chord_up_to_rounding [OF cornered_graph e ws] ids mem
  have "edge_type cornered_edge = HORIZONTAL"
    and "distance cornered_edge = calculate_path_distance cornered_polyline
           (original_index (cornered_nodes ! 0)) (original_index (cornered_nodes ! 1))"
    and "(1 - eps64) ^ (original_index (cornered_nodes ! 1) - original_index (cornered_nodes ! 0) + 4)
           * dist3 (node_pos (cornered_nodes ! 0)) (node_pos (cornered_nodes ! 1))
         \<le> distance cornered_edge"
    by blast+
  with cornered_graph e ws ids d show ?thesis by (simp add: idx cornered_edge_def)
qed

subsection \<open>Worked examples for the result document\<close>

lemma float64_small:
  "float64 2 = 2" "float64 3 = 3" "float64 4 = 4" "float64 5 = 5" "float64 6 = 6" "float64 16 = 16"
  using float64_exact [of 2 2 0] float64_exact [of 3 3 0] float64_exact [of 4 4 0]
    float64_exact [of 5 5 0] float64_exact [of 6 6 0] float64_exact [of 16 16 0]
  by simp_all

lemma sqrt_16: "sqrt 16 = 4"
  by (rule real_sqrt_unique) simp_all

text \<open>
  C2 as stated fails.  A floor whose flattened polyline is two points 4 m apart yields two
  ENDPOINT nodes and no edge, because the only candidate edge exceeds the connection radius of
  3 m: \<open>total_distance\<close> is 4 while the HORIZONTAL edge distances sum to 0.
\<close>

theorem total_distance_not_edge_sum:
  "pipeline_result [(0, 0, 0), (4, 0, 0)] far_apart_floor [] 0 =
     Inr \<lparr>total_nodes = 2, total_distance = 4,
          path_nodes = [mk_node 0 (0, 0, 0) ENDPOINT 0 (Some 1), mk_node 1 (4, 0, 0) ENDPOINT 1 (Some 1)],
          path_edges = []\<rparr> \<and>
   horizontal_distance [] = 0"
  by (simp add: pipeline_result_def build_processing_result_def graph_stage_def far_apart_floor_def
        build_path_graph_def detect_junctions_def extract_path_nodes_def extract_path_edges_def
        merge_floor_graphs_def segment_scan_def calculate_path_distance_def sub_f64_def norm_f64_def
        float64_zero float64_small sqrt_16
        horizontal_distance_def mk_node_def upt_conv_Cons)

lemma corner_graph:
  "map (\<lambda>e. (distance e, edge_type e)) (snd (graph_stage [(1, corner_polyline)] [] 0))
     = [(1, HORIZONTAL), (1, HORIZONTAL), (1, HORIZONTAL), (1, HORIZONTAL), (1, HORIZONTAL), (1, HORIZONTAL)]"
  "length (fst (graph_stage [(1, corner_polyline)] [] 0)) = 7"
  unfolding graph_stage_def build_floor_graphs.simps build_path_graph_def corner_junctions
  by (simp_all add: extract_path_nodes_def extract_path_edges_def merge_floor_graphs_def
        corner_polyline_def upt_conv_Cons ev mk_node_def
        calculate_path_distance_def sub_f64_def norm_f64_def float64_zero float64_one)

lemma corner_total: "running_sum (all_segment_norms [(1, corner_polyline)]) 0 = 6"
  by (simp add: running_sum_def all_segment_norms_def segment_norms_def corner_polyline_def
        upt_conv_Cons sub_f64_def norm_f64_def float64_zero float64_one float64_small)

text \<open>The theorem on the L-shaped corridor sampled every metre: seven nodes, six edges of
  1 m, none dropped, and a \<open>total_distance\<close> of 6.\<close>

theorem total_distance_and_edge_sum_witness:
  "corner_polyline \<noteq> [] \<and> well_scaled corner_polyline \<and>
   (\<exists>res. pipeline_result corner_polyline [(1, corner_polyline)] [] 0 = Inr res \<and>
      total_distance res = 6 \<and> horizontal_distance (path_edges res) = 6 \<and>
      horizontal_count (path_edges res) + walkable_floors [(1, corner_polyline)]
        = length (path_nodes res) \<and>
      (1 - eps64) ^ 6 * horizontal_distance (path_edges res) \<le> (1 + eps64) ^ 6 * total_distance res \<and>
      (1 - eps64) ^ 6 * total_distance res \<le> (1 + eps64) ^ 6 * horizontal_distance (path_edges res))"
proof -
  have ne: "corner_polyline \<noteq> []" by (simp add: corner_polyline_def)
  have ws: "well_scaled corner_polyline"
    by (simp add: well_scaled_def corner_polyline_def sub3_def in_band_def upt_conv_Cons)
  have fl: "\<forall>(level, positions) \<in> set [(1::int, corner_polyline)]. positions \<noteq> [] \<and> well_scaled positions"
    using ne ws by simp
  have st: "segment_total [(1, corner_polyline)] = 6"
    by (simp add: segment_total_def corner_polyline_def)
  have wf: "walkable_floors [(1, corner_polyline)] = 1"
    by (simp add: walkable_floors_def corner_polyline_def)
  from total_distance_and_edge_sum [OF fl, of corner_polyline "[]" 0]
  obtain res where res: "pipeline_result corner_polyline [(1, corner_polyline)] [] 0 = Inr res"
    "path_nodes res = fst (graph_stage [(1, corner_polyline)] [] 0)"
    "path_edges res = snd (graph_stage [(1, corner_polyline)] [] 0)"
    "total_distance res = running_sum (all_segment_norms [(1, corner_polyline)]) 0"
    "(1 - eps64) ^ 6 * horizontal_distance (path_edges res) \<le> (1 + eps64) ^ 6 * total_distance res"
    "horizontal_count (path_edges res) + walkable_floors [(1, corner_polyline)] = length (path_nodes res)
     \<longrightarrow> (1 - eps64) ^ 6 * total_distance res \<le> (1 + eps64) ^ 6 * horizontal_distance (path_edges res)"
    unfolding st by blast
  have t: "total_distance res = 6" using res(4) corner_total by simp
  have "map edge_type (path_edges res) = map snd (map (\<lambda>e. (distance e, edge_type e)) (path_edges res))"
    by (simp add: comp_def)
  then have et: "map edge_type (path_edges res) = replicate 6 HORIZONTAL"
    unfolding res(3) corner_graph(1) by (simp add: numeral_eq_Suc)
  have "map distance (path_edges res) = map fst (map (\<lambda>e. (distance e, edge_type e)) (path_edges res))"
    by (simp add: comp_def)
  then have ed: "map distance (path_edges res) = replicate 6 1"
    unfolding res(3) corner_graph(1) by (simp add: numeral_eq_Suc)
  have allh: "\<forall>e \<in> set (path_edges res). edge_type e = HORIZONTAL"
  proof
    fix e assume "e \<in> set (path_edges res)"
    then have "edge_type e \<in> set (map edge_type (path_edges res))" by simp
    then show "edge_type e = HORIZONTAL" unfolding et by simp
  qed
  then have f: "filter (\<lambda>e. edge_type e = HORIZONTAL) (path_edges res) = path_edges res" by simp
  have "length (path_edges res) = length (map distance (path_edges res))" by simp
  then have len: "length (path_edges res) = 6" unfolding ed by simp
  have h: "horizontal_distance (path_edges res) = 6"
    by (simp add: horizontal_distance_def f ed sum_list_replicate)
  have c: "horizontal_count (path_edges res) + walkable_floors [(1, corner_polyline)] = length (path_nodes res)"
    by (simp add: horizontal_count_def f len wf res(2) corner_graph(2))
  show ?thesis using ne ws res(1) t h c res(5) res(6) by auto
qed

subsection \<open>Vertical passages\<close>

lemma run_end_step: "i < n \<Longrightarrow> changing_z ! i \<Longrightarrow> run_end changing_z n i = run_end changing_z n (i + 1)"
  by (subst run_end.simps) simp

lemma run_end_stop: "\<not> (i < n \<and> changing_z ! i) \<Longrightarrow> run_end changing_z n i = i"
  by (subst run_end.simps) auto

lemma group_runs_stop:
  "\<not> i < length positions \<Longrightarrow> group_runs positions changing_z m k i st = st"
  by (cases st) (simp add: group_runs.simps)

lemma group_runs_skip:
  "i < length positions \<Longrightarrow> \<not> changing_z ! i \<Longrightarrow>
   group_runs positions changing_z m k i st = group_runs positions changing_z m k (i + 1) st"
  by (cases st) (simp add: group_runs.simps)

lemma group_runs_run:
  "i < length positions \<Longrightarrow> changing_z ! i \<Longrightarrow>
   group_runs positions changing_z m k i (segs, is_stair) =
     (let e = run_end changing_z (length positions) i in
      if \<bar>z_of (positions ! (e - 1)) - z_of (positions ! i)\<bar> \<ge> m \<and> e - i \<ge> k
      then group_runs positions changing_z m k e (segs @ [new_passage positions i e], set_range is_stair i e)
      else group_runs positions changing_z m k e (segs, is_stair))"
  by (subst group_runs.simps) (simp add: Let_def)

lemma two_flights_mask:
  "changing_z_mask two_flights (1/20) 10 (3/2) =
     replicate 15 True @ [False] @ replicate 11 True"
  by (simp add: changing_z_mask_def two_flights_def z_of_def upt_conv_Cons window_marked_def
        set_range_def numeral_eq_Suc)


lemmas group_eval = run_end_step run_end_stop group_runs_stop group_runs_skip group_runs_run

text \<open>
  C6, evaluated where the code departs from it.  The trajectory \<open>two_flights\<close> climbs from
  \<open>z = 0\<close> to \<open>z = 2.5\<close>, jumps down to \<open>z = -5\<close> and climbs again to \<open>z = -2.5\<close>.
  Both climbs are kept as upward passages, one index apart, and are merged into a single passage
  from index 0 to 27.  The merged passage still says UP although it ends 2.5 m below its start.
\<close>

theorem merged_passage_keeps_stale_direction:
  "map passage_summary (fst (detect_stairs_first two_flights (1 / 20) 10 (3 / 2) 5))
     = [(0, 27, UP, 0, - 5 / 2, 5 / 2)]"
  by (simp add: detect_stairs_first_def two_flights_mask)
     (simp add: two_flights_def numeral_eq_Suc group_eval z_of_def merge_stair_segments_def
        new_passage_def passage_summary_def)

subsection \<open>Passages of the pipeline carry no entry or exit point\<close>

lemma group_runs_no_points:
  "\<forall>p \<in> set (fst st). entry_point p = None \<and> exit_point p = None \<Longrightarrow>
   \<forall>p \<in> set (fst (group_runs positions changing_z m k i st)). entry_point p = None \<and> exit_point p = None"
proof (induction positions changing_z m k i st rule: group_runs.induct)
  case (1 positions changing_z m k i segs is_stair)
  have np: "entry_point (new_passage positions a b) = None \<and> exit_point (new_passage positions a b) = None" for a b
    by (simp add: new_passage_def)
  show ?case
  proof (cases "i < length positions")
    case False
    then show ?thesis using "1.prems" by (subst group_runs.simps) simp
  next
    case True
    show ?thesis
    proof (cases "changing_z ! i")
      case False
      then show ?thesis using True "1.IH"(3) "1.prems" by (subst group_runs.simps) simp
    next
      case cz: True
      show ?thesis
      proof (cases "\<bar>z_of (positions ! (run_end changing_z (length positions) i - 1))
                       - z_of (positions ! i)\<bar> \<ge> m
                     \<and> run_end changing_z (length positions) i - i \<ge> k")
        case c: True
        have "\<forall>p \<in> set (fst (segs @ [new_passage positions i (run_end changing_z (length positions) i)],
                             set_range is_stair i (run_end changing_z (length positions) i))).
                entry_point p = None \<and> exit_point p = None"
          using "1.prems" np by auto
        from "1.IH"(1) [OF True cz c this] True cz c show ?thesis
          by (subst group_runs.simps) simp
      next
        case c: False
        from "1.IH"(2) [OF True cz c "1.prems"] True cz c show ?thesis
          by (subst group_runs.simps) auto
      qed
    qed
  qed
qed

lemma merge_segments_loop_no_points:
  "\<forall>p \<in> set (current # merged @ segs). entry_point p = None \<and> exit_point p = None \<Longrightarrow>
   \<forall>p \<in> set (merge_segments_loop positions gap segs current merged).
      entry_point p = None \<and> exit_point p = None"
proof (induction segs arbitrary: current merged)
  case Nil
  then show ?case by simp
next
  case (Cons seg rest)
  define ratio where "ratio = xy_z_ratio_of
                          (xy_path_length (take (end_idx seg - start_idx current)
                                                (drop (start_idx current) positions)))
                          \<bar>z_end seg - z_start current\<bar>"
  define current' where "current' = current\<lparr>end_idx := end_idx seg,
                      passage_positions :=
                        take (end_idx seg - start_idx current) (drop (start_idx current) positions),
                      z_end := z_end seg,
                      z_displacement := \<bar>z_end seg - z_start current\<bar>,
                      xy_z_ratio := ratio,
                      passage_type := classify ratio\<rparr>"
  have c': "entry_point current' = entry_point current" "exit_point current' = exit_point current"
    by (simp_all add: current'_def)
  show ?case
  proof (cases "direction current = direction seg
         \<and> int (start_idx seg) - int (end_idx current) < int gap")
    case True
    have "\<forall>p \<in> set (current' # merged @ rest). entry_point p = None \<and> exit_point p = None"
      using Cons.prems c' by simp
    then have "\<forall>p \<in> set (merge_segments_loop positions gap rest current' merged).
      entry_point p = None \<and> exit_point p = None" by (rule Cons.IH)
    moreover have "merge_segments_loop positions gap (seg # rest) current merged
                   = merge_segments_loop positions gap rest current' merged"
      using True by (simp add: current'_def ratio_def)
    ultimately show ?thesis by (simp only:)
  next
    case False
    have "\<forall>p \<in> set (seg # (merged @ [current]) @ rest). entry_point p = None \<and> exit_point p = None"
      using Cons.prems by simp
    then have "\<forall>p \<in> set (merge_segments_loop positions gap rest seg (merged @ [current])).
      entry_point p = None \<and> exit_point p = None" by (rule Cons.IH)
    moreover have "merge_segments_loop positions gap (seg # rest) current merged
                   = merge_segments_loop positions gap rest seg (merged @ [current])"
      using False by auto
    ultimately show ?thesis by (simp only:)
  qed
qed

lemma detect_stairs_first_no_points:
  "\<forall>p \<in> set (fst (detect_stairs_first positions zct w m k)). entry_point p = None \<and> exit_point p = None"
proof -
  define st where "st = group_runs positions (changing_z_mask positions zct w m) m k 0
                          ([], replicate (length positions) False)"
  have g: "\<forall>p \<in> set (fst st). entry_point p = None \<and> exit_point p = None"
    unfolding st_def by (rule group_runs_no_points) simp
  have d: "fst (detect_stairs_first positions zct w m k) = merge_stair_segments (fst st) positions 10"
    by (simp add: detect_stairs_first_def st_def split: prod.splits)
  show ?thesis
  proof (cases "length (fst st) < 2")
    case True
    then show ?thesis using g by (simp add: d merge_stair_segments_def)
  next
    case False
    then obtain s0 rest where sr: "fst st = s0 # rest" by (cases "fst st") auto
    have "\<forall>p \<in> set (s0 # [] @ rest). entry_point p = None \<and> exit_point p = None"
      using g by (simp add: sr)
    then have "\<forall>p \<in> set (merge_segments_loop positions 10 rest s0 []).
      entry_point p = None \<and> exit_point p = None" by (rule merge_segments_loop_no_points)
    moreover have "merge_stair_segments (fst st) positions 10 = merge_segments_loop positions 10 rest s0 []"
      using False by (simp add: merge_stair_segments_def sr)
    ultimately show ?thesis by (simp only: d)
  qed
qed

lemma passage_scan_no_points:
  "\<forall>p \<in> set passages. entry_point p = None \<Longrightarrow>
   passage_scan all_nodes passages st = st"
proof (induction passages)
  case Nil
  show ?case by simp
next
  case (Cons p rest)
  then show ?case by (cases st) (simp add: find_nearest_node_to_position_def)
qed

lemma pipeline_passages_add_no_edge:
  "snd (merge_floor_graphs floor_graphs
          (assign_floors_to_stairs (fst (detect_stairs_first positions zct w m k)) floors_data) uid)
   = concat (map (\<lambda>(level, nodes, edges). edges) floor_graphs)"
proof -
  have "\<forall>p \<in> set (assign_floors_to_stairs (fst (detect_stairs_first positions zct w m k)) floors_data).
          entry_point p = None"
    using detect_stairs_first_no_points [of positions zct w m k]
    by (auto simp: assign_floors_to_stairs_def)
  then show ?thesis by (simp add: merge_floor_graphs_def passage_scan_no_points)
qed


lemma lift_mask: "changing_z_mask lift_ride (1/20) 10 (3/2) = replicate 11 True"
  by (simp add: changing_z_mask_def lift_ride_def z_of_def upt_conv_Cons window_marked_def
        set_range_def numeral_eq_Suc)

lemma lift_passages_eval:
  "map (\<lambda>p. (passage_type p, from_floor p, to_floor p, z_displacement p, entry_point p, exit_point p))
       lift_passages = [(ELEVATOR, Some 1, Some 2, 3, None, None)]"
  unfolding lift_passages_def
  by (simp add: detect_stairs_first_def lift_mask)
     (simp add: lift_ride_def numeral_eq_Suc group_eval z_of_def merge_stair_segments_def
        new_passage_def assign_floors_to_stairs_def find_nearest_floor_def two_floor_data_def
        flat_floor_def xy_path_length_def xy_z_ratio_of_def classify_def)

lemma two_floors_graphs:
  "map (\<lambda>(level, nodes, edges). (level, map floor_level nodes, map edge_type edges))
       (fst (build_floor_graphs two_floors 0))
   = [(1, [Some 1, Some 1, Some 1], [HORIZONTAL, HORIZONTAL]),
      (2, [Some 2, Some 2, Some 2], [HORIZONTAL, HORIZONTAL])]"
  by (simp add: two_floors_def build_path_graph_def detect_junctions_def extract_path_nodes_def
        extract_path_edges_def calculate_path_distance_def sub_f64_def norm_f64_def float64_zero
        float64_one unit_norms ev mk_node_def upt_conv_Cons)

text \<open>
  C1, evaluated where the code departs from it.  An elevator ride from \<open>z = 0\<close> to \<open>z = 3\<close> is
  detected as one ELEVATOR passage and assigned to the floors 1 and 2, both of which have graph
  nodes.  The passage dictionary has no \<open>entry_point\<close> and no \<open>exit_point\<close> key (the detector
  never writes them), both nearest-node queries return nothing, and the merged graph is left
  with the four HORIZONTAL edges of the two floors.
\<close>

theorem pipeline_passage_gets_no_vertical_edge:
  "map (\<lambda>p. (passage_type p, from_floor p, to_floor p, z_displacement p, entry_point p, exit_point p))
       lift_passages = [(ELEVATOR, Some 1, Some 2, 3, None, None)] \<and>
   map floor_level (fst (graph_stage two_floors lift_passages 0))
     = [Some 1, Some 1, Some 1, Some 2, Some 2, Some 2] \<and>
   map edge_type (snd (graph_stage two_floors lift_passages 0))
     = [HORIZONTAL, HORIZONTAL, HORIZONTAL, HORIZONTAL]"
proof -
  obtain graphs u where b: "build_floor_graphs two_floors 0 = (graphs, u)" by (metis prod.exhaust)
  have g: "map (\<lambda>(level, nodes, edges). (level, map floor_level nodes, map edge_type edges)) graphs
   = [(1, [Some 1, Some 1, Some 1], [HORIZONTAL, HORIZONTAL]),
      (2, [Some 2, Some 2, Some 2], [HORIZONTAL, HORIZONTAL])]"
    using two_floors_graphs by (simp add: b)
  have e: "snd (graph_stage two_floors lift_passages 0) = concat (map (\<lambda>(level, nodes, edges). edges) graphs)"
    unfolding graph_stage_def b lift_passages_def by (simp add: pipeline_passages_add_no_edge)
  have n: "fst (graph_stage two_floors lift_passages 0) = concat (map (\<lambda>(level, nodes, edges). nodes) graphs)"
    unfolding graph_stage_def b by (simp add: merge_floor_graphs_def)
  have "map floor_level (concat (map (\<lambda>(level, nodes, edges). nodes) graphs))
          = concat (map (\<lambda>(level, fls, ets). fls)
              (map (\<lambda>(level, nodes, edges). (level, map floor_level nodes, map edge_type edges)) graphs))"
    by (simp add: map_concat comp_def case_prod_beta)
  moreover have "map edge_type (concat (map (\<lambda>(level, nodes, edges). edges) graphs))
          = concat (map (\<lambda>(level, fls, ets). ets)
              (map (\<lambda>(level, nodes, edges). (level, map floor_level nodes, map edge_type edges)) graphs))"
    by (simp add: map_concat comp_def case_prod_beta)
  ultimately show ?thesis using lift_passages_eval by (simp add: e n g)
qed

subsection \<open>Pose reader\<close>

lemma close_to_zero_iff: "close_to_zero v = (is_finite v \<and> \<bar>finite_value v\<bar> \<le> 1 / 10 ^ 6)"
  by (cases v) (simp_all add: close_to_zero_def is_finite_def finite_value_def)

lemma is_valid_position_iff:
  "is_valid_position (get_position_from_matrix m) =
     (list_all (\<lambda>k. is_finite (m ! k)) [3, 7, 11] \<and>
      \<not> list_all (\<lambda>k. \<bar>finite_value (m ! k)\<bar> \<le> 1 / 10 ^ 6) [3, 7, 11])"
  unfolding is_valid_position_def get_position_from_matrix_def
  by (auto simp: close_to_zero_iff)

lemma position_vec_matrix:
  "position_vec (get_position_from_matrix m) =
     (finite_value (m ! 3), finite_value (m ! 7), finite_value (m ! 11))"
  by (simp add: position_vec_def get_position_from_matrix_def)

lemma collect_rows_filter:
  "collect_rows rows (positions, node_ids) =
     (positions @ map record_position (filter record_survives rows),
      node_ids @ map fst (filter record_survives rows))"
proof (induction rows arbitrary: positions node_ids)
  case Nil
  show ?case by simp
next
  case (Cons row rows)
  obtain nid pose_blob where row: "row = (nid, pose_blob)" by (cases row)
  show ?case
  proof (cases pose_blob)
    case None
    then show ?thesis
      unfolding row by (simp add: Cons.IH extract_pose_def record_survives_def)
  next
    case (Some blob)
    show ?thesis
    proof (cases "length blob = 48")
      case False
      then show ?thesis
        unfolding row Some by (simp add: Cons.IH extract_pose_def record_survives_def)
    next
      case True
      then have pose: "extract_pose (Some blob) = Some (unpack_12f blob)"
        by (simp add: extract_pose_def)
      have surv: "record_survives (nid, Some blob) =
          is_valid_position (get_position_from_matrix (unpack_12f blob))"
        unfolding is_valid_position_iff using True by (simp add: record_survives_def)
      show ?thesis
        unfolding row Some
        by (simp add: pose surv Cons.IH position_vec_matrix record_position_def)
    qed
  qed
qed


lemma unpack_nan_rotation_blob:
  "unpack_12f nan_rotation_blob =
     [NaN, Finite 0, Finite 0, Finite 1, Finite 0, Finite 0, Finite 0, Finite 2,
      Finite 0, Finite 0, Finite 0, Finite 3]"
  by (simp add: unpack_12f_def nan_rotation_blob_def le_bits_def decode_float32_def
      upt_conv_Cons Let_def)

lemma unpack_inf_translation_blob:
  "unpack_12f inf_translation_blob =
     [Finite 1, Finite 0, Finite 0, PosInf, Finite 0, Finite 1, Finite 0, Finite 2,
      Finite 0, Finite 0, Finite 1, Finite 3]"
  by (simp add: unpack_12f_def inf_translation_blob_def le_bits_def decode_float32_def
      upt_conv_Cons Let_def)

lemma unpack_origin_blob:
  "unpack_12f origin_blob =
     [Finite 0, Finite 0, Finite 0, Finite 0, Finite 0, Finite 0, Finite 0, Finite 0,
      Finite 0, Finite 0, Finite 0, Finite 0]"
  by (simp add: unpack_12f_def origin_blob_def le_bits_def decode_float32_def
      upt_conv_Cons Let_def)

lemma sample_blob_lengths:
  "length nan_rotation_blob = 48" "length inf_translation_blob = 48" "length origin_blob = 48"
  by (simp_all add: nan_rotation_blob_def inf_translation_blob_def origin_blob_def)

lemma sample_rows_survive:
  "record_survives (i, None) = False"
  "record_survives (i, Some [0x00, 0x00, 0x80, 0x3F]) = False"
  "record_survives (i, Some origin_blob) = False"
  "record_survives (i, Some nan_rotation_blob) = True"
  "record_survives (i, Some inf_translation_blob) = False"
  by (simp_all add: record_survives_def sample_blob_lengths
      unpack_nan_rotation_blob unpack_inf_translation_blob unpack_origin_blob
      is_finite_def finite_value_def)

lemma nan_rotation_blob_position: "record_position (i, Some nan_rotation_blob) = (1, 2, 3)"
  by (simp add: record_position_def unpack_nan_rotation_blob finite_value_def)

text \<open>Claim C3, with the finiteness test on the translation.  The reader keeps exactly the
  records whose blob is present, is 48 bytes long, has a finite translation \<open>(tx, ty, tz)\<close>
  and whose translation is not within \<open>1e-6\<close> of zero on every axis; it returns their
  translations and ids in row order, and raises \<open>ValueError\<close> exactly when no record is
  kept.  (\<open>struct.unpack\<close> cannot fail on 48 bytes; the byte order is taken to be the
  little-endian one of the hosts the service runs on.)\<close>

theorem extract_trajectory_from_db_filter:
  "extract_trajectory_from_db rows =
     (if filter record_survives rows = [] then Inl ValueError
      else Inr (map record_position (filter record_survives rows),
                map fst (filter record_survives rows)))"
  by (simp add: extract_trajectory_from_db_def collect_rows_filter)

text \<open>The theorem on five rows: an absent blob, a short blob, the all-zero pose, a pose with a
  NaN rotation entry and a pose with an infinite \<open>tx\<close>; and on a store holding only the
  all-zero pose.\<close>

theorem extract_trajectory_from_db_filter_witness:
  "filter record_survives sample_rows = [(4, Some nan_rotation_blob)] \<and>
   extract_trajectory_from_db sample_rows = Inr ([(1, 2, 3)], [4]) \<and>
   extract_trajectory_from_db [(3, Some origin_blob)] = Inl ValueError"
  using extract_trajectory_from_db_filter [of sample_rows]
    extract_trajectory_from_db_filter [of "[(3, Some origin_blob)]"]
  by (simp add: sample_rows_def sample_rows_survive nan_rotation_blob_position)

text \<open>Claim C3 as stated, with "no component is non-finite" read over the 12 unpacked
  floats, fails: a record whose first rotation entry is NaN is kept, since
  \<open>is_valid_position\<close> looks at the translation only.\<close>

theorem non_finite_rotation_entry_kept:
  "\<not> list_all is_finite (unpack_12f nan_rotation_blob) \<and>
   extract_trajectory_from_db [(1, Some nan_rotation_blob)] = Inr ([(1, 2, 3)], [1])"
  by (simp add: extract_trajectory_from_db_def extract_pose_def unpack_nan_rotation_blob
      sample_blob_lengths
      is_valid_position_def get_position_from_matrix_def position_vec_def close_to_zero_def
      is_finite_def finite_value_def)

subsection \<open>Gap splitting and the empty concatenation\<close>

lemma split_loop_spec:
  "\<forall>idx \<in> set si. idx \<le> length ps \<Longrightarrow>
   split_loop ps si (segs, prev) =
     (segs @ filter (\<lambda>r. 2 \<le> length r)
               (map (\<lambda>(a, b). take (b - a) (drop a ps)) (zip (prev # si) si)),
      last (prev # si))"
proof (induction si arbitrary: segs prev)
  case Nil
  show ?case by simp
next
  case (Cons idx rest)
  have len: "length (take (idx - prev) (drop prev ps)) = idx - prev"
    using Cons.prems by auto
  have rest: "\<forall>i \<in> set rest. i \<le> length ps" using Cons.prems by simp
  show ?case
    using Cons.IH [OF rest, of "segs @ [take (idx - prev) (drop prev ps)]" idx]
          Cons.IH [OF rest, of segs idx] len
    by simp
qed

lemma zip_shift_last: "zip (x # xs) (xs @ [y]) = zip (x # xs) xs @ [(last (x # xs), y)]"
  by (induction xs arbitrary: x) auto

lemma split_indices_le: "\<forall>idx \<in> set (split_indices ps g). idx \<le> length ps"
  by (auto simp: split_indices_def)

lemma split_indices_last_le: "last (0 # split_indices ps g) \<le> length ps"
proof (cases "split_indices ps g = []")
  case True then show ?thesis by simp
next
  case False
  then have "last (split_indices ps g) \<in> set (split_indices ps g)" by simp
  with split_indices_le [of ps g] False show ?thesis by simp
qed

lemma split_at_gaps_runs:
  assumes "split_indices ps g \<noteq> []"
  shows "split_at_gaps ps g = filter (\<lambda>r. 2 \<le> length r) (gap_separated_runs ps g)"
proof -
  let ?si = "split_indices ps g"
  have n2: "\<not> length ps < 2"
  proof
    assume "length ps < 2"
    then have "[0..<length ps - 1] = []" by simp
    then have "?si = []" by (simp add: split_indices_def)
    with assms show False by simp
  qed
  have loop: "split_loop ps ?si ([], 0) =
     (filter (\<lambda>r. 2 \<le> length r) (map (\<lambda>(a, b). take (b - a) (drop a ps)) (zip (0 # ?si) ?si)),
      last (0 # ?si))"
    using split_loop_spec [OF split_indices_le, of ps g "[]" 0] by simp
  have tail: "take (length ps - last (0 # ?si)) (drop (last (0 # ?si)) ps) = drop (last (0 # ?si)) ps"
    by simp
  have runs: "gap_separated_runs ps g =
      map (\<lambda>(a, b). take (b - a) (drop a ps)) (zip (0 # ?si) ?si) @ [drop (last (0 # ?si)) ps]"
    unfolding gap_separated_runs_def zip_shift_last using tail by simp
  have lenlast: "length (drop (last (0 # ?si)) ps) = length ps - last (0 # ?si)" by simp
  show ?thesis
    unfolding split_at_gaps_def runs using n2 assms loop lenlast
    by (simp del: last.simps)
qed

lemma all_gaps_split_indices:
  assumes "list_all (\<lambda>d. g < d) (consecutive_dists qs)"
  shows "split_indices qs g = map Suc [0..<length qs - 1]"
proof -
  have "filter (\<lambda>i. g < consecutive_dists qs ! i) [0..<length qs - 1] = [0..<length qs - 1]"
  proof (rule filter_True, clarify)
    fix i assume "i \<in> set [0..<length qs - 1]"
    then have "i < length (consecutive_dists qs)" by (simp add: consecutive_dists_def)
    with assms show "g < consecutive_dists qs ! i" by (simp add: list_all_length)
  qed
  then show ?thesis by (simp add: split_indices_def)
qed

lemma all_gaps_runs_short:
  assumes gaps: "list_all (\<lambda>d. g < d) (consecutive_dists qs)" and n: "3 \<le> length qs"
  shows "filter (\<lambda>r. 2 \<le> length r) (gap_separated_runs qs g) = []"
proof -
  obtain m where m: "length qs = Suc m" using n by (cases "length qs") auto
  have si: "split_indices qs g = map Suc [0..<m]"
    using all_gaps_split_indices [OF gaps] m by simp
  have a: "0 # map Suc [0..<m] = [0..<Suc m]"
    by (simp only: map_Suc_upt upt_conv_Cons [of 0 "Suc m"] zero_less_Suc)
  have b: "map Suc [0..<m] @ [Suc m] = map Suc [0..<Suc m]"
    by simp
  have z: "zip [0..<Suc m] (map Suc [0..<Suc m]) = map (\<lambda>k. (k, Suc k)) [0..<Suc m]"
    by (simp only: zip_map2 zip_same_conv_map map_map comp_def split_conv)
  have runs: "gap_separated_runs qs g = map (\<lambda>k. take 1 (drop k qs)) [0..<Suc m]"
    unfolding gap_separated_runs_def si m a b z by (simp add: comp_def del: upt_Suc)
  show ?thesis unfolding runs by (simp add: filter_empty_conv del: upt_Suc)
qed

lemma snap_all_gaps:
  assumes gaps: "list_all (\<lambda>d. g < d) (consecutive_dists qs)" and n: "3 \<le> length qs"
  shows "snap_to_lines qs eps spacing g = Inl ValueError"
proof -
  have "split_indices qs g \<noteq> []"
    using all_gaps_split_indices [OF gaps] n by simp
  from split_at_gaps_runs [OF this] all_gaps_runs_short [OF gaps n]
  have "split_at_gaps qs g = []" by simp
  then show ?thesis using n by (simp add: snap_to_lines_def np_concatenate_def)
qed

text \<open>
  C10.  Whenever the point sequence has at least one gap, \<open>split_at_gaps\<close> returns exactly the
  gap-separated runs that hold two points or more: every run with fewer than two points is
  dropped without a trace.  And on every input of at least three points whose consecutive
  distances all exceed the gap threshold, every run is dropped and \<open>snap_to_lines\<close> ends in the
  \<open>ValueError\<close> of a concatenation of zero segments.
\<close>

theorem snap_to_lines_not_total:
  "(split_indices ps g \<noteq> [] \<longrightarrow>
      split_at_gaps ps g = filter (\<lambda>r. 2 \<le> length r) (gap_separated_runs ps g)) \<and>
   (3 \<le> length qs \<and> list_all (\<lambda>d. gap_threshold < d) (consecutive_dists qs) \<longrightarrow>
      snap_to_lines qs epsilon point_spacing gap_threshold = Inl ValueError)"
  using split_at_gaps_runs [of ps g] snap_all_gaps [of gap_threshold qs epsilon point_spacing]
  by blast

theorem snap_to_lines_not_total_witness:
  "split_indices [(0, 0, 0), (1, 0, 0), (10, 0, 0)] 5 \<noteq> [] \<and>
   split_at_gaps [(0, 0, 0), (1, 0, 0), (10, 0, 0)] 5 = [[(0, 0, 0), (1, 0, 0)]] \<and>
   gap_separated_runs [(0, 0, 0), (1, 0, 0), (10, 0, 0)] 5 = [[(0, 0, 0), (1, 0, 0)], [(10, 0, 0)]] \<and>
   (3::nat) \<le> length [(0, 0, 0), (10, 0, 0), (20, 0, 0) :: vec3] \<and>
   list_all (\<lambda>d. 5 < d) (consecutive_dists [(0, 0, 0), (10, 0, 0), (20, 0, 0)]) \<and>
   snap_to_lines [(0, 0, 0), (10, 0, 0), (20, 0, 0)] (1 / 2) (1 / 2) 5 = Inl ValueError"
proof -
  have a: "split_indices [(0, 0, 0), (1, 0, 0), (10, 0, 0)] 5 = [2]"
    by (simp add: split_indices_def consecutive_dists_def ev upt_conv_Cons)
  have b: "gap_separated_runs [(0, 0, 0), (1, 0, 0), (10, 0, 0)] 5 = [[(0, 0, 0), (1, 0, 0)], [(10, 0, 0)]]"
    by (simp add: gap_separated_runs_def a)
  have c: "list_all (\<lambda>d. 5 < d) (consecutive_dists [(0, 0, 0), (10, 0, 0), (20, 0, 0)])"
    by (simp add: consecutive_dists_def ev upt_conv_Cons)
  from snap_to_lines_not_total [of "[(0, 0, 0), (1, 0, 0), (10, 0, 0)]" 5
         "[(0, 0, 0), (10, 0, 0), (20, 0, 0)]" 5 "1 / 2" "1 / 2"] a b c
  show ?thesis by simp
qed

end
